theory Spec2Isabelle
  imports
    Complex_Main
    "HOL-Library.Product_Lexorder"
    "HOL-Library.List_Lexorder"
    "HOL-Library.Char_ord"
begin

section \<open>Data model (src/core/problem.py, src/core/solution.py)\<close>

text \<open>
  Python exceptions raised by the modelled code. \<open>ValueError\<close> carries its message;
  \<open>RecursionError\<close> is what the interpreter raises when the backtracking recursion
  exceeds the recursion limit; \<open>IndexError\<close> is raised by \<open>grid[0]\<close> on a grid with
  no row.
\<close>

datatype py_error = ValueError string | RecursionError | IndexError

text \<open>
  The dataclass \<open>PackingProblem\<close>. Python integers are unbounded, hence \<open>int\<close>;
  \<open>max_tiles: Optional[int]\<close> is an \<open>int option\<close>.
\<close>

record PackingProblem =
  container_w :: int
  container_h :: int
  tile_w :: int
  tile_h :: int
  max_tiles :: "int option"
  allow_rotation :: bool
  require_centering :: bool

text \<open>
  \<open>__post_init__\<close> runs at the end of the generated constructor: the object exists for
  the caller only when no \<open>ValueError\<close> was raised. The three checks are in source order.
\<close>

definition post_init :: "PackingProblem \<Rightarrow> py_error + PackingProblem" where
  "post_init p =
     (if container_w p \<le> 0 \<or> container_h p \<le> 0
        then Inl (ValueError ''Container dimensions must be positive'')
      else if tile_w p \<le> 0 \<or> tile_h p \<le> 0
        then Inl (ValueError ''Tile dimensions must be positive'')
      else if tile_w p > container_w p \<or> tile_h p > container_h p
        then Inl (ValueError ''Tile cannot fit in container'')
      else Inr p)"

text \<open>
  The constructor call \<open>PackingProblem(container_w, container_h, tile_w, tile_h)\<close> with
  the dataclass defaults \<open>max_tiles=None, allow_rotation=True, require_centering=True\<close>.
\<close>

definition mk_problem :: "int \<Rightarrow> int \<Rightarrow> int \<Rightarrow> int \<Rightarrow> py_error + PackingProblem" where
  "mk_problem cw ch tw th =
     post_init \<lparr>container_w = cw, container_h = ch, tile_w = tw, tile_h = th,
                max_tiles = None, allow_rotation = True, require_centering = True\<rparr>"

definition container_area :: "PackingProblem \<Rightarrow> int" where
  "container_area p = container_w p * container_h p"

definition tile_area :: "PackingProblem \<Rightarrow> int" where
  "tile_area p = tile_w p * tile_h p"

text \<open>
  \<open>container_area // tile_area\<close>: Python's floor division, which is \<open>div\<close> on \<open>int\<close>.
  A zero \<open>tile_area\<close> would raise \<open>ZeroDivisionError\<close>; every constructed problem has
  positive tile dimensions, and the theorems below are about constructed problems.
\<close>

definition theoretical_max_tiles :: "PackingProblem \<Rightarrow> int" where
  "theoretical_max_tiles p = container_area p div tile_area p"

text \<open>
  \<open>problem.max_tiles or problem.theoretical_max_tiles\<close>: Python's \<open>or\<close> takes the right
  operand when the left one is \<open>None\<close> or \<open>0\<close>.
\<close>

definition max_tiles_or_theoretical :: "PackingProblem \<Rightarrow> int" where
  "max_tiles_or_theoretical p =
     (case max_tiles p of
        None \<Rightarrow> theoretical_max_tiles p
      | Some m \<Rightarrow> if m = 0 then theoretical_max_tiles p else m)"

text \<open>
  \<open>TilePosition = Tuple[int, int, int, int, str]\<close>: \<open>(x, y, width, height, orientation)\<close>.
  Tuples and strings compare lexicographically in Python, strings by code point: the
  orders of \<open>Product_Lexorder\<close>, \<open>List_Lexorder\<close> and \<open>Char_ord\<close>.
\<close>

type_synonym TilePosition = "int \<times> int \<times> int \<times> int \<times> string"

text \<open>
  The dataclass \<open>PackingSolution\<close>. The fields \<open>solve_time\<close> (a wall-clock float) and
  \<open>metadata\<close> (a free-form dictionary) are not modelled: no function below reads them.
  The record is extensible, so results stated for a record scheme hold with them added.
\<close>

record PackingSolution =
  tile_positions :: "TilePosition list"
  sol_container_w :: int
  sol_container_h :: int
  solver_name :: string

definition num_tiles :: "'a PackingSolution_scheme \<Rightarrow> nat" where
  "num_tiles s = length (tile_positions s)"

section \<open>Geometry (src/core/geometry.py)\<close>

definition rotate_point_90 :: "int \<Rightarrow> int \<Rightarrow> int \<Rightarrow> int \<Rightarrow> int \<times> int" where
  "rotate_point_90 x y cw ch = (ch - 1 - y, x)"

definition rotate_point_180 :: "int \<Rightarrow> int \<Rightarrow> int \<Rightarrow> int \<Rightarrow> int \<times> int" where
  "rotate_point_180 x y cw ch = (cw - 1 - x, ch - 1 - y)"

definition rotate_point_270 :: "int \<Rightarrow> int \<Rightarrow> int \<Rightarrow> int \<Rightarrow> int \<times> int" where
  "rotate_point_270 x y cw ch = (y, cw - 1 - x)"

definition rotate_tile_90 :: "TilePosition \<Rightarrow> int \<Rightarrow> int \<Rightarrow> TilePosition" where
  "rotate_tile_90 tile cw ch =
     (case tile of (x, y, w, h, orientation) \<Rightarrow>
        (case rotate_point_90 (x + w - 1) y cw ch of (new_x, new_y) \<Rightarrow>
           (new_x - h + 1, new_y, h, w, orientation)))"

definition rotate_tile_180 :: "TilePosition \<Rightarrow> int \<Rightarrow> int \<Rightarrow> TilePosition" where
  "rotate_tile_180 tile cw ch =
     (case tile of (x, y, w, h, orientation) \<Rightarrow>
        (case rotate_point_180 (x + w - 1) (y + h - 1) cw ch of (new_x, new_y) \<Rightarrow>
           (new_x - w + 1, new_y - h + 1, w, h, orientation)))"

definition rotate_tile_270 :: "TilePosition \<Rightarrow> int \<Rightarrow> int \<Rightarrow> TilePosition" where
  "rotate_tile_270 tile cw ch =
     (case tile of (x, y, w, h, orientation) \<Rightarrow>
        (case rotate_point_270 x (y + h - 1) cw ch of (new_x, new_y) \<Rightarrow>
           (new_x, new_y - w + 1, h, w, orientation)))"

definition rotate_solution_90 :: "TilePosition list \<Rightarrow> int \<Rightarrow> int \<Rightarrow> TilePosition list" where
  "rotate_solution_90 positions cw ch = map (\<lambda>tile. rotate_tile_90 tile cw ch) positions"

definition rotate_solution_180 :: "TilePosition list \<Rightarrow> int \<Rightarrow> int \<Rightarrow> TilePosition list" where
  "rotate_solution_180 positions cw ch = map (\<lambda>tile. rotate_tile_180 tile cw ch) positions"

definition rotate_solution_270 :: "TilePosition list \<Rightarrow> int \<Rightarrow> int \<Rightarrow> TilePosition list" where
  "rotate_solution_270 positions cw ch = map (\<lambda>tile. rotate_tile_270 tile cw ch) positions"

definition translate_solution :: "TilePosition list \<Rightarrow> int \<Rightarrow> int \<Rightarrow> TilePosition list" where
  "translate_solution positions offset_x offset_y =
     map (\<lambda>(x, y, w, h, orientation). (x + offset_x, y + offset_y, w, h, orientation)) positions"

text \<open>
  Python's \<open>min\<close> and \<open>max\<close> over a non-empty sequence, given as its first element and
  the rest: a left-to-right scan that replaces the current best only by a strictly
  better element, so the first of several equal extremes is returned. Both raise
  \<open>ValueError\<close> on an empty sequence; every call below is on a sequence that the code
  has already found non-empty, which the split into first element and rest records.
\<close>

definition py_min :: "'a::linorder \<Rightarrow> 'a list \<Rightarrow> 'a" where
  "py_min x xs = fold (\<lambda>y best. if y < best then y else best) xs x"

definition py_max :: "'a::linorder \<Rightarrow> 'a list \<Rightarrow> 'a" where
  "py_max x xs = fold (\<lambda>y best. if best < y then y else best) xs x"

definition tile_x :: "TilePosition \<Rightarrow> int" where
  "tile_x t = (case t of (x, y, w, h, orientation) \<Rightarrow> x)"

definition tile_y :: "TilePosition \<Rightarrow> int" where
  "tile_y t = (case t of (x, y, w, h, orientation) \<Rightarrow> y)"

definition tile_right :: "TilePosition \<Rightarrow> int" where
  "tile_right t = (case t of (x, y, w, h, orientation) \<Rightarrow> x + w)"

definition tile_top :: "TilePosition \<Rightarrow> int" where
  "tile_top t = (case t of (x, y, w, h, orientation) \<Rightarrow> y + h)"

fun calculate_bounding_box :: "TilePosition list \<Rightarrow> int \<times> int \<times> int \<times> int" where
  "calculate_bounding_box [] = (0, 0, 0, 0)"
| "calculate_bounding_box (p # ps) =
     (let min_x = py_min (tile_x p) (map tile_x ps);
          min_y = py_min (tile_y p) (map tile_y ps);
          max_x = py_max (tile_right p) (map tile_right ps);
          max_y = py_max (tile_top p) (map tile_top ps)
      in (min_x, min_y, max_x, max_y))"

fun center_solution :: "TilePosition list \<Rightarrow> int \<Rightarrow> int \<Rightarrow> TilePosition list" where
  "center_solution [] cw ch = []"
| "center_solution (p # ps) cw ch =
     (let min_x = py_min (tile_x p) (map tile_x ps);
          min_y = py_min (tile_y p) (map tile_y ps);
          max_x = py_max (tile_right p) (map tile_right ps);
          max_y = py_max (tile_top p) (map tile_top ps);
          used_w = max_x - min_x;
          used_h = max_y - min_y;
          offset_x = (cw - used_w) div 2 - min_x;
          offset_y = (ch - used_h) div 2 - min_y
      in translate_solution (p # ps) offset_x offset_y)"

section \<open>Symmetry (src/utils/symmetry.py)\<close>

definition mirror_solution_horizontal :: "TilePosition list \<Rightarrow> int \<Rightarrow> TilePosition list" where
  "mirror_solution_horizontal positions cw =
     map (\<lambda>(x, y, w, h, orientation). (cw - x - w, y, w, h, orientation)) positions"

definition mirror_solution_vertical :: "TilePosition list \<Rightarrow> int \<Rightarrow> TilePosition list" where
  "mirror_solution_vertical positions ch =
     map (\<lambda>(x, y, w, h, orientation). (x, ch - y - h, w, h, orientation)) positions"

text \<open>
  \<open>sorted(transform, key=lambda t: (t[1], t[0], t[2], t[3]))\<close>: Python's sort is stable,
  as is \<open>sort_key\<close>, so tiles with equal keys keep their order.
\<close>

definition tile_sort_key :: "TilePosition \<Rightarrow> int \<times> int \<times> int \<times> int" where
  "tile_sort_key t = (case t of (x, y, w, h, orientation) \<Rightarrow> (y, x, w, h))"

definition sorted_tiles :: "TilePosition list \<Rightarrow> TilePosition list" where
  "sorted_tiles transform = sort_key tile_sort_key transform"

text \<open>
  \<open>get_canonical_form\<close>: the list \<open>transforms\<close> holds the positions and their three
  rotations, then the horizontal mirror of each of these four; \<open>min\<close> compares the
  sorted tuples of tiles lexicographically, each tile as \<open>(x, y, w, h, orientation)\<close>.
\<close>

definition all_transforms :: "TilePosition list \<Rightarrow> int \<Rightarrow> int \<Rightarrow> TilePosition list list" where
  "all_transforms positions cw ch =
     (let rotations = [positions,
                       rotate_solution_90 positions cw ch,
                       rotate_solution_180 positions cw ch,
                       rotate_solution_270 positions cw ch]
      in rotations @ map (\<lambda>transform. mirror_solution_horizontal transform cw) rotations)"

definition get_canonical_form :: "TilePosition list \<Rightarrow> int \<Rightarrow> int \<Rightarrow> TilePosition list" where
  "get_canonical_form positions cw ch =
     (if positions = [] then []
      else (case map sorted_tiles (all_transforms positions cw ch) of
              form # forms \<Rightarrow> py_min form forms))"

fun dedup_loop ::
  "int \<Rightarrow> int \<Rightarrow> 'a PackingSolution_scheme list \<Rightarrow> TilePosition list set \<Rightarrow>
   'a PackingSolution_scheme list \<Rightarrow> 'a PackingSolution_scheme list" where
  "dedup_loop cw ch [] seen unique_solutions = unique_solutions"
| "dedup_loop cw ch (solution # rest) seen unique_solutions =
     (let canonical_form = get_canonical_form (tile_positions solution) cw ch
      in if canonical_form \<notin> seen
         then dedup_loop cw ch rest (insert canonical_form seen) (unique_solutions @ [solution])
         else dedup_loop cw ch rest seen unique_solutions)"

definition deduplicate_solutions ::
  "'a PackingSolution_scheme list \<Rightarrow> PackingProblem \<Rightarrow> 'a PackingSolution_scheme list" where
  "deduplicate_solutions solutions problem =
     (if solutions = [] then solutions
      else dedup_loop (container_w problem) (container_h problem) solutions {} [])"

definition positions_equivalent :: "TilePosition list \<Rightarrow> TilePosition list \<Rightarrow> bool" where
  "positions_equivalent pos1 pos2 =
     (if length pos1 \<noteq> length pos2 then False
      else sorted_tiles pos1 = sorted_tiles pos2)"

definition detect_symmetry_type :: "TilePosition list \<Rightarrow> int \<Rightarrow> int \<Rightarrow> string list" where
  "detect_symmetry_type positions cw ch =
     (let symmetries0 = [];
          rotated_90 = rotate_solution_90 positions cw ch;
          symmetries1 = (if positions_equivalent positions rotated_90
                         then symmetries0 @ [''rotational_90''] else symmetries0);
          rotated_180 = rotate_solution_180 positions cw ch;
          symmetries2 = (if positions_equivalent positions rotated_180
                         then symmetries1 @ [''rotational_180''] else symmetries1);
          rotated_270 = rotate_solution_270 positions cw ch;
          symmetries3 = (if positions_equivalent positions rotated_270
                         then symmetries2 @ [''rotational_270''] else symmetries2);
          mirrored_h = mirror_solution_horizontal positions cw;
          symmetries4 = (if positions_equivalent positions mirrored_h
                         then symmetries3 @ [''mirror_horizontal''] else symmetries3);
          mirrored_v = mirror_solution_vertical positions ch;
          symmetries5 = (if positions_equivalent positions mirrored_v
                         then symmetries4 @ [''mirror_vertical''] else symmetries4)
      in symmetries5)"

section \<open>Overlap test (src/utils/validation.py)\<close>

definition rectangles_overlap ::
  "int \<Rightarrow> int \<Rightarrow> int \<Rightarrow> int \<Rightarrow> int \<Rightarrow> int \<Rightarrow> int \<Rightarrow> int \<Rightarrow> bool" where
  "rectangles_overlap x1 y1 w1 h1 x2 y2 w2 h2 =
     (\<not> (x1 + w1 \<le> x2 \<or> x2 + w2 \<le> x1 \<or> y1 + h1 \<le> y2 \<or> y2 + h2 \<le> y1))"

section \<open>Solvers (src/solvers)\<close>

text \<open>
  \<open>xs[:n]\<close>: the first \<open>n\<close> elements, and for a negative \<open>n\<close> all but the last
  \<open>-n\<close>.
\<close>

definition py_slice_to :: "'a list \<Rightarrow> int \<Rightarrow> 'a list" where
  "py_slice_to xs n = (if 0 \<le> n then take (nat n) xs else take (nat (int (length xs) + n)) xs)"

text \<open>The solution objects that the solvers build.\<close>

definition mk_solution :: "TilePosition list \<Rightarrow> PackingProblem \<Rightarrow> string \<Rightarrow> PackingSolution" where
  "mk_solution positions problem name =
     \<lparr>tile_positions = positions, sol_container_w = container_w problem,
      sol_container_h = container_h problem, solver_name = name\<rparr>"

subsection \<open>MathematicalSolver\<close>

text \<open>An arrangement is \<open>(rows, cols, start_x, start_y, total_tiles)\<close>.\<close>

type_synonym arrangement = "int \<times> int \<times> int \<times> int \<times> int"

definition arrangement_total :: "arrangement \<Rightarrow> int" where
  "arrangement_total a = (case a of (rows, cols, start_x, start_y, total_tiles) \<Rightarrow> total_tiles)"

text \<open>
  \<open>_find_rectangular_arrangements\<close>: \<open>range(1, max_tiles + 1)\<close> is \<open>[1..max_tiles]\<close>,
  empty when \<open>max_tiles < 1\<close>; \<open>rows\<close> is at least 1 in \<open>max_tiles // rows\<close>. The final
  \<open>sort(key=lambda x: x[4], reverse=True)\<close> is stable: arrangements with the same
  count keep their order, which sorting by the negated count expresses.
\<close>

definition find_rectangular_arrangements :: "PackingProblem \<Rightarrow> arrangement list" where
  "find_rectangular_arrangements problem =
     (let max_tiles = max_tiles_or_theoretical problem;
          arrangements =
            concat (map (\<lambda>rows.
              concat (map (\<lambda>cols.
                if rows * cols \<le> max_tiles then
                  (let total_w = cols * tile_w problem;
                       total_h = rows * tile_h problem
                   in if total_w \<le> container_w problem \<and> total_h \<le> container_h problem then
                        (let start_x = (container_w problem - total_w) div 2;
                             start_y = (container_h problem - total_h) div 2;
                             total_tiles = rows * cols
                         in [(rows, cols, start_x, start_y, total_tiles)])
                      else [])
                else [])
              [1 .. max_tiles div rows]))
            [1 .. max_tiles])
      in sort_key (\<lambda>a. - arrangement_total a) arrangements)"

text \<open>
  The tile positions of a \<open>rows\<close> by \<open>cols\<close> grid: \<open>for r in range(rows): for c in
  range(cols)\<close>.
\<close>

definition grid_positions :: "PackingProblem \<Rightarrow> arrangement \<Rightarrow> TilePosition list" where
  "grid_positions problem a =
     (case a of (rows, cols, start_x, start_y, total_tiles) \<Rightarrow>
        concat (map (\<lambda>r.
          map (\<lambda>c. (start_x + c * tile_w problem, start_y + r * tile_h problem,
                     tile_w problem, tile_h problem, ''original''))
            [0 .. cols - 1])
          [0 .. rows - 1]))"

text \<open>
  \<open>max(arrangements, key=lambda x: x[4])\<close> on the non-empty list \<open>a # as\<close>: the first
  arrangement among those with the largest count.
\<close>

definition py_max_key :: "('a \<Rightarrow> int) \<Rightarrow> 'a \<Rightarrow> 'a list \<Rightarrow> 'a" where
  "py_max_key f x xs = fold (\<lambda>y best. if f best < f y then y else best) xs x"

definition MathematicalSolver_solve :: "PackingProblem \<Rightarrow> PackingSolution" where
  "MathematicalSolver_solve problem =
     (case find_rectangular_arrangements problem of
        [] \<Rightarrow> mk_solution [] problem ''Mathematical''
      | a # as \<Rightarrow>
          (let best_arrangement = py_max_key arrangement_total a as
           in mk_solution (grid_positions problem best_arrangement) problem ''Mathematical''))"

definition MathematicalSolver_solve_all_optimal ::
  "PackingProblem \<Rightarrow> int \<Rightarrow> PackingSolution list" where
  "MathematicalSolver_solve_all_optimal problem max_solutions =
     (case find_rectangular_arrangements problem of
        [] \<Rightarrow> []
      | a # as \<Rightarrow>
          (let max_tiles = py_max (arrangement_total a) (map arrangement_total as);
               optimal_arrangements = filter (\<lambda>arr. arrangement_total arr = max_tiles) (a # as)
           in map (\<lambda>arr. mk_solution (grid_positions problem arr) problem ''Mathematical'')
                (py_slice_to optimal_arrangements max_solutions)))"

subsection \<open>GreedySolver\<close>

text \<open>
  \<open>_can_place_at\<close>: the nested loops return \<open>False\<close> at the first occupied cell;
  \<open>range(x, x + w)\<close> is \<open>[x..x + w - 1]\<close>.
\<close>

definition can_place_at :: "int \<Rightarrow> int \<Rightarrow> int \<Rightarrow> int \<Rightarrow> (int \<times> int) set \<Rightarrow> bool" where
  "can_place_at x y w h occupied =
     list_all (\<lambda>check_x. list_all (\<lambda>check_y. (check_x, check_y) \<notin> occupied) [y .. y + h - 1])
       [x .. x + w - 1]"

text \<open>The loops that add the cells of a placed tile to \<open>occupied\<close>.\<close>

definition mark_occupied :: "int \<Rightarrow> int \<Rightarrow> int \<Rightarrow> int \<Rightarrow> (int \<times> int) set \<Rightarrow> (int \<times> int) set" where
  "mark_occupied x y w h occupied =
     fold (\<lambda>fill_x occ. fold (\<lambda>fill_y occ'. insert (fill_x, fill_y) occ') [y .. y + h - 1] occ)
       [x .. x + w - 1] occupied"

text \<open>
  \<open>_find_best_bottom_left_position\<close>: the first position, rows of \<open>y\<close> outermost, at
  which the tile can be placed.
\<close>

definition find_best_bottom_left_position ::
  "PackingProblem \<Rightarrow> (int \<times> int) set \<Rightarrow> (int \<times> int \<times> int \<times> int) option" where
  "find_best_bottom_left_position problem occupied =
     map_option (\<lambda>(y, x). (x, y, tile_w problem, tile_h problem))
       (List.find (\<lambda>(y, x). can_place_at x y (tile_w problem) (tile_h problem) occupied)
          (concat (map (\<lambda>y. map (\<lambda>x. (y, x)) [0 .. container_w problem - tile_w problem])
                     [0 .. container_h problem - tile_h problem])))"

text \<open>
  The loop \<open>for _ in range(max_tiles)\<close> of \<open>_solve_bottom_left\<close>, by the number of
  iterations left; \<open>break\<close> ends it when no position is free.
\<close>

fun bottom_left_loop ::
  "nat \<Rightarrow> PackingProblem \<Rightarrow> TilePosition list \<Rightarrow> (int \<times> int) set \<Rightarrow> TilePosition list" where
  "bottom_left_loop 0 problem placed_tiles occupied = placed_tiles"
| "bottom_left_loop (Suc n) problem placed_tiles occupied =
     (case find_best_bottom_left_position problem occupied of
        None \<Rightarrow> placed_tiles
      | Some (x, y, w, h) \<Rightarrow>
          bottom_left_loop n problem (placed_tiles @ [(x, y, w, h, ''original'')])
            (mark_occupied x y w h occupied))"

definition solve_bottom_left :: "PackingProblem \<Rightarrow> TilePosition list" where
  "solve_bottom_left problem =
     bottom_left_loop (nat (max_tiles_or_theoretical problem)) problem [] {}"

text \<open>
  \<open>_solve_center_out\<close>: the candidate positions \<open>(distance, x, y)\<close>, sorted as tuples,
  then one pass over them.
\<close>

definition center_out_positions :: "PackingProblem \<Rightarrow> (int \<times> int \<times> int) list" where
  "center_out_positions problem =
     (let center_x = container_w problem div 2;
          center_y = container_h problem div 2
      in sort (concat (map (\<lambda>x.
           concat (map (\<lambda>y.
             if x + tile_w problem \<le> container_w problem \<and> y + tile_h problem \<le> container_h problem
             then (let tile_center_x = x + tile_w problem div 2;
                       tile_center_y = y + tile_h problem div 2;
                       distance = \<bar>tile_center_x - center_x\<bar> + \<bar>tile_center_y - center_y\<bar>
                   in [(distance, x, y)])
             else [])
           [0 .. container_h problem - 1]))
         [0 .. container_w problem - 1])))"

fun center_out_loop ::
  "(int \<times> int \<times> int) list \<Rightarrow> PackingProblem \<Rightarrow> int \<Rightarrow> TilePosition list \<Rightarrow>
   (int \<times> int) set \<Rightarrow> TilePosition list" where
  "center_out_loop [] problem tile_limit placed_tiles occupied = placed_tiles"
| "center_out_loop ((distance, x, y) # rest) problem tile_limit placed_tiles occupied =
     (if int (length placed_tiles) \<ge> tile_limit then placed_tiles
      else if can_place_at x y (tile_w problem) (tile_h problem) occupied
      then center_out_loop rest problem tile_limit
             (placed_tiles @ [(x, y, tile_w problem, tile_h problem, ''original'')])
             (mark_occupied x y (tile_w problem) (tile_h problem) occupied)
      else center_out_loop rest problem tile_limit placed_tiles occupied)"

definition solve_center_out :: "PackingProblem \<Rightarrow> TilePosition list" where
  "solve_center_out problem =
     center_out_loop (center_out_positions problem) problem (max_tiles_or_theoretical problem) [] {}"

text \<open>\<open>GreedySolver(strategy).solve(problem)\<close>.\<close>

definition GreedySolver_solve :: "string \<Rightarrow> PackingProblem \<Rightarrow> py_error + PackingSolution" where
  "GreedySolver_solve strategy problem =
     (if strategy = ''bottom_left''
        then Inr (mk_solution (solve_bottom_left problem) problem (''Greedy_'' @ strategy))
      else if strategy = ''center_out''
        then Inr (mk_solution (solve_center_out problem) problem (''Greedy_'' @ strategy))
      else Inl (ValueError (''Unknown strategy: '' @ strategy)))"

subsection \<open>BacktrackSolver\<close>

text \<open>
  The grid is a list of rows of cell labels: \<open>0\<close> is empty, another label is the id of
  the tile on the cell. \<open>len(grid[0])\<close> is the length of the first row; the code evaluates
  it on a grid without rows only in \<open>_extract_solution\<close>, which is modelled with the
  \<open>IndexError\<close>.
\<close>

type_synonym grid = "int list list"

definition grid_width :: "grid \<Rightarrow> nat" where
  "grid_width g = length (g ! 0)"

text \<open>
  \<open>_find_first_empty\<close>: the first empty cell in row-major order, or \<open>None\<close>.
\<close>

definition find_first_empty :: "grid \<Rightarrow> (nat \<times> nat) option" where
  "find_first_empty g =
     List.find (\<lambda>(row, col). g ! row ! col = 0)
       (concat (map (\<lambda>row. map (\<lambda>col. (row, col)) [0..<grid_width g]) [0..<length g]))"

text \<open>
  \<open>_can_place\<close>: \<open>r\<close> and \<open>c\<close> are indices of a cell, hence naturals; \<open>h\<close> and
  \<open>w\<close> are the problem's integers. \<open>range(r, r + h)\<close> is \<open>[r..<nat (r + h)]\<close>.
\<close>

definition can_place :: "grid \<Rightarrow> nat \<Rightarrow> nat \<Rightarrow> int \<Rightarrow> int \<Rightarrow> bool" where
  "can_place g r c h w =
     (if int r + h > int (length g) \<or> int c + w > int (grid_width g) then False
      else list_all (\<lambda>i. list_all (\<lambda>j. g ! i ! j = 0) [c..<nat (int c + w)])
             [r..<nat (int r + h)])"

text \<open>
  \<open>_place_tile\<close> and \<open>_remove_tile\<close>: the assignments \<open>grid[i][j] = v\<close> of the two
  nested loops, one after the other. Both are called on cells inside the grid only
  (\<open>_can_place\<close> has checked the bounds), where list update is Python's assignment.
\<close>

definition fill_cells :: "grid \<Rightarrow> nat \<Rightarrow> nat \<Rightarrow> int \<Rightarrow> int \<Rightarrow> int \<Rightarrow> grid" where
  "fill_cells g r c h w v =
     fold (\<lambda>i g'. fold (\<lambda>j g''. g''[i := (g'' ! i)[j := v]]) [c..<nat (int c + w)] g')
       [r..<nat (int r + h)] g"

definition place_tile :: "grid \<Rightarrow> nat \<Rightarrow> nat \<Rightarrow> int \<Rightarrow> int \<Rightarrow> int \<Rightarrow> grid" where
  "place_tile g r c h w tile_id = fill_cells g r c h w tile_id"

definition remove_tile :: "grid \<Rightarrow> nat \<Rightarrow> nat \<Rightarrow> int \<Rightarrow> int \<Rightarrow> grid" where
  "remove_tile g r c h w = fill_cells g r c h w 0"

text \<open>
  The two \<open>while\<close> loops of \<open>_extract_solution\<close> that find the extent of a tile from
  its first cell \<open>(r, c)\<close>.
\<close>

function expand_width :: "grid \<Rightarrow> nat \<Rightarrow> nat \<Rightarrow> int \<Rightarrow> nat \<Rightarrow> nat \<Rightarrow> nat" where
  "expand_width g r c tile_id width w =
     (if c + w < width \<and> g ! r ! (c + w) = tile_id
      then expand_width g r c tile_id width (w + 1) else w)"
  by pat_completeness auto
termination
  by (relation "measure (\<lambda>(g, r, c, tile_id, width, w). width - (c + w))") auto

function expand_height :: "grid \<Rightarrow> nat \<Rightarrow> nat \<Rightarrow> int \<Rightarrow> nat \<Rightarrow> nat \<Rightarrow> nat" where
  "expand_height g r c tile_id height h =
     (if r + h < height \<and> g ! (r + h) ! c = tile_id
      then expand_height g r c tile_id height (h + 1) else h)"
  by pat_completeness auto
termination
  by (relation "measure (\<lambda>(g, r, c, tile_id, height, h). height - (r + h))") auto

declare expand_width.simps [simp del]
declare expand_height.simps [simp del]

text \<open>
  The body of the scan of \<open>_extract_solution\<close> at the cell \<open>(r, c)\<close>. The dictionary
  \<open>tiles\<close> is a list of entries in insertion order; an entry is added only for a key
  that is not in it yet.
\<close>

definition scan_cell ::
  "grid \<Rightarrow> PackingProblem \<Rightarrow> nat \<Rightarrow> nat \<Rightarrow> nat \<Rightarrow> nat \<Rightarrow>
   (int \<times> TilePosition) list \<Rightarrow> (int \<times> TilePosition) list" where
  "scan_cell g problem height width r c tiles =
     (let tile_id = g ! r ! c
      in if tile_id \<noteq> 0 \<and> map_of tiles tile_id = None
         then (let w = expand_width g r c tile_id width 1;
                   h = expand_height g r c tile_id height 1;
                   orientation = (if int w = tile_h problem \<and> int h = tile_w problem
                                  then ''rotated'' else ''original'')
               in tiles @ [(tile_id, (int c, int r, int w, int h, orientation))])
         else tiles)"

text \<open>
  \<open>_extract_solution\<close>: \<open>[tiles[tid] for tid in sorted(tiles.keys())]\<close> looks up keys
  of the dictionary, so every lookup succeeds.
\<close>

definition extract_solution :: "grid \<Rightarrow> PackingProblem \<Rightarrow> py_error + TilePosition list" where
  "extract_solution g problem =
     (case g of
        [] \<Rightarrow> Inl IndexError
      | row0 # _ \<Rightarrow>
          (let height = length g;
               width = length row0;
               tiles = fold (\<lambda>r tiles'. fold (\<lambda>c tiles''. scan_cell g problem height width r c tiles'')
                                          [0..<width] tiles')
                         [0..<height] []
           in Inr (map (\<lambda>tid. the (map_of tiles tid)) (sort (map fst tiles)))))"

text \<open>
  The state that \<open>_backtrack_solve\<close> reads and changes: the grid and the list of
  recorded solutions, both shared by all recursive calls, and the number of deadline
  checks made so far.
\<close>

record bt_state =
  grid_of :: grid
  solutions_of :: "TilePosition list list"
  checks_of :: nat

text \<open>
  What a \<open>BacktrackSolver\<close> runs with: its default \<open>max_solutions\<close>; the outcome of the
  deadline check \<open>time.time() - self._start_time > self.time_limit\<close> at each check, by
  the number of the check; and the number of nested calls of \<open>_backtrack_solve\<close> that
  the interpreter's recursion limit leaves room for.
\<close>

record BacktrackSolver =
  bt_max_solutions :: int
  deadline_passed :: "nat \<Rightarrow> bool"
  recursion_room :: nat

definition record_solution :: "PackingProblem \<Rightarrow> bt_state \<Rightarrow> py_error + bt_state" where
  "record_solution problem st =
     (case extract_solution (grid_of st) problem of
        Inl e \<Rightarrow> Inl e
      | Inr solution \<Rightarrow> Inr (st\<lparr>solutions_of := solutions_of st @ [solution]\<rparr>))"

text \<open>
  One branch of \<open>_backtrack_solve\<close>: place the tile with footprint \<open>h\<close> by \<open>w\<close>, run
  the recursive call \<open>rec\<close>, remove the tile. An exception leaves the branch at once.
\<close>

definition try_branch ::
  "(bt_state \<Rightarrow> py_error + bt_state) \<Rightarrow> nat \<Rightarrow> nat \<Rightarrow> int \<Rightarrow> int \<Rightarrow> int \<Rightarrow> bt_state \<Rightarrow>
   py_error + bt_state" where
  "try_branch rec row col h w tile_id st =
     (case rec (st\<lparr>grid_of := place_tile (grid_of st) row col h w tile_id\<rparr>) of
        Inl e \<Rightarrow> Inl e
      | Inr st' \<Rightarrow> Inr (st'\<lparr>grid_of := remove_tile (grid_of st') row col h w\<rparr>))"

text \<open>
  \<open>_backtrack_solve\<close>. The first argument counts the nested calls still allowed; at
  \<open>0\<close> the call raises \<open>RecursionError\<close>.
\<close>

fun backtrack_solve ::
  "nat \<Rightarrow> (nat \<Rightarrow> bool) \<Rightarrow> PackingProblem \<Rightarrow> int \<Rightarrow> int \<Rightarrow> int \<Rightarrow> bt_state \<Rightarrow>
   py_error + bt_state" where
  "backtrack_solve 0 expired problem max_solutions tiles_left tile_id st = Inl RecursionError"
| "backtrack_solve (Suc room) expired problem max_solutions tiles_left tile_id st =
     (let st0 = st\<lparr>checks_of := Suc (checks_of st)\<rparr>
      in if expired (checks_of st) then Inr st0
         else if int (length (solutions_of st0)) \<ge> max_solutions then Inr st0
         else (case find_first_empty (grid_of st0) of
                 None \<Rightarrow> record_solution problem st0
               | Some (row, col) \<Rightarrow>
                   if tiles_left = 0 then record_solution problem st0
                   else
                     (case (if can_place (grid_of st0) row col (tile_h problem) (tile_w problem)
                            then try_branch
                                   (backtrack_solve room expired problem max_solutions
                                      (tiles_left - 1) (tile_id + 1))
                                   row col (tile_h problem) (tile_w problem) tile_id st0
                            else Inr st0) of
                        Inl e \<Rightarrow> Inl e
                      | Inr st1 \<Rightarrow>
                          if allow_rotation problem \<and> tile_w problem \<noteq> tile_h problem \<and>
                             can_place (grid_of st1) row col (tile_w problem) (tile_h problem)
                          then try_branch
                                 (backtrack_solve room expired problem max_solutions
                                    (tiles_left - 1) (tile_id + 1))
                                 row col (tile_w problem) (tile_h problem) tile_id st1
                          else Inr st1)))"

text \<open>
  The grid that \<open>solve_all_optimal\<close> starts from: \<open>container_h\<close> rows of
  \<open>container_w\<close> empty cells.
\<close>

definition empty_grid :: "PackingProblem \<Rightarrow> grid" where
  "empty_grid problem =
     replicate (nat (container_h problem)) (replicate (nat (container_w problem)) 0)"

text \<open>
  \<open>BacktrackSolver.solve_all_optimal(problem, max_solutions)\<close>; \<open>max_solutions=None\<close>
  stands for the solver's default.
\<close>

definition BacktrackSolver_solve_all_optimal ::
  "BacktrackSolver \<Rightarrow> PackingProblem \<Rightarrow> int option \<Rightarrow> py_error + PackingSolution list" where
  "BacktrackSolver_solve_all_optimal solver problem max_solutions_arg =
     (let max_solutions = (case max_solutions_arg of None \<Rightarrow> bt_max_solutions solver | Some m \<Rightarrow> m);
          g = empty_grid problem;
          tile_limit = max_tiles_or_theoretical problem
      in case backtrack_solve (recursion_room solver) (deadline_passed solver) problem
                max_solutions tile_limit 1
                \<lparr>grid_of = g, solutions_of = [], checks_of = 0\<rparr> of
           Inl e \<Rightarrow> Inl e
         | Inr st \<Rightarrow>
             (case solutions_of st of
                [] \<Rightarrow> Inr []
              | sol # sols \<Rightarrow>
                  (let max_tiles_found = py_max (length sol) (map length sols);
                       optimal_solutions = filter (\<lambda>s. length s = max_tiles_found) (sol # sols)
                   in Inr (map (\<lambda>positions. mk_solution positions problem ''Backtrack'')
                             (py_slice_to optimal_solutions max_solutions)))))"

definition BacktrackSolver_solve :: "BacktrackSolver \<Rightarrow> PackingProblem \<Rightarrow> py_error + PackingSolution" where
  "BacktrackSolver_solve solver problem =
     (case BacktrackSolver_solve_all_optimal solver problem (Some 1) of
        Inl e \<Rightarrow> Inl e
      | Inr [] \<Rightarrow> Inr (mk_solution [] problem ''Backtrack'')
      | Inr (solution # _) \<Rightarrow> Inr solution)"

subsection \<open>HybridSolver\<close>

text \<open>
  \<open>efficiency\<close>: the covered share of the container in percent. Python computes it in
  floating point, \<open>(total_tile_area / container_area) * 100\<close> with a rounded quotient
  and a rounded product; the model uses the exact quotient. The value is read only by the
  test \<open>efficiency >= 95\<close> of the hybrid solver. There the two can differ only when the
  exact quotient is below \<open>0.95\<close> by less than \<open>1e-16\<close>, which takes a container area
  above \<open>1e14\<close>: for smaller containers the test has the same outcome in the model
  and in the code, and the results on the hybrid solver below are for the container
  15 by 15.
\<close>

definition efficiency :: "PackingSolution \<Rightarrow> real" where
  "efficiency s =
     (if num_tiles s = 0 then 0
      else real_of_int (sum_list (map (\<lambda>(x, y, w, h, orientation). w * h) (tile_positions s)))
             / real_of_int (sol_container_w s * sol_container_h s) * 100)"

text \<open>
  What a \<open>HybridSolver\<close> runs with: its backtracking solver, whether the elapsed time
  exceeds 70 percent of the time limit after the second tier and 80 percent after the
  third, and the ILP solver, an external collaborator that is \<open>None\<close> when OR-Tools is
  not installed.
\<close>

record HybridSolver =
  backtrack_solver :: BacktrackSolver
  over_70_percent :: bool
  over_80_percent :: bool
  ilp_solver :: "(PackingProblem \<Rightarrow> PackingSolution) option"

definition as_hybrid :: "PackingSolution \<Rightarrow> PackingSolution" where
  "as_hybrid s = s\<lparr>solver_name := ''Hybrid('' @ solver_name s @ '')''\<rparr>"

definition HybridSolver_solve :: "HybridSolver \<Rightarrow> PackingProblem \<Rightarrow> py_error + PackingSolution" where
  "HybridSolver_solve solver problem =
     (let best0 = mk_solution [] problem ''Hybrid'';
          math_solution = MathematicalSolver_solve problem;
          best1 = (if num_tiles math_solution > 0 then math_solution else best0)
      in if num_tiles math_solution > 0 \<and>
            (int (num_tiles best1) \<ge> theoretical_max_tiles problem \<or> efficiency math_solution \<ge> 95)
         then Inr (as_hybrid best1)
         else
           (case GreedySolver_solve ''center_out'' problem of
              Inl e \<Rightarrow> Inl e
            | Inr greedy_solution \<Rightarrow>
                (let best2 = (if num_tiles greedy_solution > num_tiles best1
                              then greedy_solution else best1)
                 in if int (num_tiles best2) \<ge> theoretical_max_tiles problem
                    then Inr (as_hybrid best2)
                    else if over_70_percent solver then Inr best2
                    else
                      (case BacktrackSolver_solve (backtrack_solver solver) problem of
                         Inl e \<Rightarrow> Inl e
                       | Inr backtrack_solution \<Rightarrow>
                           (let improved = (num_tiles backtrack_solution > num_tiles best2);
                                best3 = (if improved then backtrack_solution else best2)
                            in if improved \<and> int (num_tiles best3) \<ge> theoretical_max_tiles problem
                               then Inr (as_hybrid best3)
                               else
                                 (case ilp_solver solver of
                                    None \<Rightarrow> Inr best3
                                  | Some ilp \<Rightarrow>
                                      if over_80_percent solver then Inr best3
                                      else
                                        (let ilp_solution = ilp problem;
                                             best4 = (if num_tiles ilp_solution > num_tiles best3
                                                      then ilp_solution else best3)
                                         in Inr (as_hybrid best4))))))))"

section \<open>Free-rectangle merge pass (packing.py, FreeRectangleManager)\<close>

text \<open>A free rectangle is \<open>(x, y, width, height)\<close>.\<close>

type_synonym rect = "int \<times> int \<times> int \<times> int"

text \<open>The two tests of the inner loop of \<open>_merge_rectangles\<close>, in source order.\<close>

definition can_merge_horizontally :: "rect \<Rightarrow> rect \<Rightarrow> bool" where
  "can_merge_horizontally rect1 rect2 =
     (case rect1 of (x1, y1, w1, h1) \<Rightarrow> case rect2 of (x2, y2, w2, h2) \<Rightarrow>
        y1 = y2 \<and> h1 = h2 \<and> (x1 + w1 = x2 \<or> x2 + w2 = x1))"

definition can_merge_vertically :: "rect \<Rightarrow> rect \<Rightarrow> bool" where
  "can_merge_vertically rect1 rect2 =
     (case rect1 of (x1, y1, w1, h1) \<Rightarrow> case rect2 of (x2, y2, w2, h2) \<Rightarrow>
        x1 = x2 \<and> w1 = w2 \<and> (y1 + h1 = y2 \<or> y2 + h2 = y1))"

definition merged_horizontally :: "rect \<Rightarrow> rect \<Rightarrow> rect" where
  "merged_horizontally rect1 rect2 =
     (case rect1 of (x1, y1, w1, h1) \<Rightarrow> case rect2 of (x2, y2, w2, h2) \<Rightarrow>
        (min x1 x2, y1, w1 + w2, h1))"

definition merged_vertically :: "rect \<Rightarrow> rect \<Rightarrow> rect" where
  "merged_vertically rect1 rect2 =
     (case rect1 of (x1, y1, w1, h1) \<Rightarrow> case rect2 of (x2, y2, w2, h2) \<Rightarrow>
        (x1, min y1 y2, w1, h1 + h2))"

text \<open>
  The inner loop \<open>for j, rect2 in enumerate(self.free_rects[i+1:], i+1)\<close>: it skips used
  indices and stops (\<open>break\<close>) at the first rectangle that merges with \<open>rect1\<close>,
  giving its index and the merged rectangle.
\<close>

fun find_merge :: "rect \<Rightarrow> (nat \<times> rect) list \<Rightarrow> nat set \<Rightarrow> (nat \<times> rect) option" where
  "find_merge rect1 [] used = None"
| "find_merge rect1 ((j, rect2) # rest) used =
     (if j \<in> used then find_merge rect1 rest used
      else if can_merge_horizontally rect1 rect2 then Some (j, merged_horizontally rect1 rect2)
      else if can_merge_vertically rect1 rect2 then Some (j, merged_vertically rect1 rect2)
      else find_merge rect1 rest used)"

text \<open>
  The outer loop \<open>for i, rect1 in enumerate(self.free_rects)\<close> of one pass, with its
  state \<open>used\<close>, \<open>new_rects\<close> and \<open>merged\<close>. The tail of the enumerated list is
  \<open>enumerate(self.free_rects[i+1:], i+1)\<close>.
\<close>

fun merge_pass_loop ::
  "(nat \<times> rect) list \<Rightarrow> nat set \<Rightarrow> rect list \<Rightarrow> bool \<Rightarrow> rect list \<times> bool" where
  "merge_pass_loop [] used new_rects merged = (new_rects, merged)"
| "merge_pass_loop ((i, rect1) # rest) used new_rects merged =
     (if i \<in> used then merge_pass_loop rest used new_rects merged
      else (case find_merge rect1 rest used of
              Some (j, m) \<Rightarrow>
                merge_pass_loop rest (insert j (insert i used)) (new_rects @ [m]) True
            | None \<Rightarrow> merge_pass_loop rest used (new_rects @ [rect1]) merged))"

text \<open>One iteration of the \<open>while merged\<close> loop: the new list and the flag.\<close>

definition merge_pass :: "rect list \<Rightarrow> rect list \<times> bool" where
  "merge_pass free_rects = merge_pass_loop (enumerate 0 free_rects) {} [] False"

definition unused_count :: "nat set \<Rightarrow> (nat \<times> rect) list \<Rightarrow> nat" where
  "unused_count used xs = length (filter (\<lambda>p. fst p \<notin> used) xs)"

text \<open>
  The state that the pass is meant to reach: no pair of rectangles passes one of the two
  merge tests.
\<close>

definition mergeable :: "rect \<Rightarrow> rect \<Rightarrow> bool" where
  "mergeable rect1 rect2 = (can_merge_horizontally rect1 rect2 \<or> can_merge_vertically rect1 rect2)"

fun no_mergeable_pair :: "rect list \<Rightarrow> bool" where
  "no_mergeable_pair [] = True"
| "no_mergeable_pair (r # rs) = (list_all (\<lambda>r2. \<not> mergeable r r2) rs \<and> no_mergeable_pair rs)"

section \<open>Notions used to state the properties\<close>

text \<open>
  The centre of a bounding box \<open>(min_x, min_y, max_x, max_y)\<close>, as \<open>_aesthetic_score\<close>
  computes it: \<open>((min_x + max_x) / 2, (min_y + max_y) / 2)\<close>.
\<close>

definition bbox_center :: "int \<times> int \<times> int \<times> int \<Rightarrow> real \<times> real" where
  "bbox_center b = (case b of (min_x, min_y, max_x, max_y) \<Rightarrow>
     (real_of_int (min_x + max_x) / 2, real_of_int (min_y + max_y) / 2))"

text \<open>
  The key by which \<open>deduplicate_solutions\<close> tells solutions apart, and the list of the
  solutions that are the first of their key in input order.
\<close>

definition canonical_key :: "PackingProblem \<Rightarrow> 'a PackingSolution_scheme \<Rightarrow> TilePosition list" where
  "canonical_key problem solution =
     get_canonical_form (tile_positions solution) (container_w problem) (container_h problem)"

definition first_of_each_class ::
  "PackingProblem \<Rightarrow> 'a PackingSolution_scheme list \<Rightarrow> 'a PackingSolution_scheme list" where
  "first_of_each_class problem solutions =
     map (\<lambda>i. solutions ! i)
       (filter (\<lambda>i. list_all (\<lambda>j. canonical_key problem (solutions ! j) \<noteq> canonical_key problem (solutions ! i)) [0..<i])
          [0..<length solutions])"

text \<open>
  The benchmark case \<open>Single Tile Fit\<close> of tests/benchmark/test_cases.py:
  \<open>PackingProblem(15, 15, 10, 10)\<close>.
\<close>

definition single_tile_fit :: PackingProblem where
  "single_tile_fit = \<lparr>container_w = 15, container_h = 15, tile_w = 10, tile_h = 10,
                        max_tiles = None, allow_rotation = True, require_centering = True\<rparr>"

text \<open>
  Two placements overlap when \<open>rectangles_overlap\<close> says so of their rectangles; a
  list has no overlaps when no placement overlaps a later one (what \<open>check_overlaps\<close>
  tests); a placement lies within the container when \<open>0 \<le> x\<close>, \<open>0 \<le> y\<close>,
  \<open>x + w \<le> container_w\<close> and \<open>y + h \<le> container_h\<close>.
\<close>

definition tiles_overlap :: "TilePosition \<Rightarrow> TilePosition \<Rightarrow> bool" where
  "tiles_overlap a b =
     (case a of (x1, y1, w1, h1, o1) \<Rightarrow> case b of (x2, y2, w2, h2, o2) \<Rightarrow>
        rectangles_overlap x1 y1 w1 h1 x2 y2 w2 h2)"

fun no_overlaps :: "TilePosition list \<Rightarrow> bool" where
  "no_overlaps [] = True"
| "no_overlaps (p # ps) = (list_all (\<lambda>q. \<not> tiles_overlap p q) ps \<and> no_overlaps ps)"

definition within_container :: "PackingProblem \<Rightarrow> TilePosition \<Rightarrow> bool" where
  "within_container problem t =
     (case t of (x, y, w, h, orientation) \<Rightarrow>
        0 \<le> x \<and> 0 \<le> y \<and> x + w \<le> container_w problem \<and> y + h \<le> container_h problem)"

definition well_placed :: "PackingProblem \<Rightarrow> TilePosition list \<Rightarrow> bool" where
  "well_placed problem positions =
     (no_overlaps positions \<and> list_all (within_container problem) positions)"

text \<open>
  The same two properties with the pairs and the bounds written out, as the claim states
  them.
\<close>

definition apart_and_inside :: "PackingProblem \<Rightarrow> TilePosition list \<Rightarrow> bool" where
  "apart_and_inside problem ps =
     ((\<forall>i<length ps. \<forall>j<length ps. i \<noteq> j \<longrightarrow> \<not> tiles_overlap (ps ! i) (ps ! j)) \<and>
      (\<forall>(x, y, w, h, orientation)\<in>set ps.
         0 \<le> x \<and> 0 \<le> y \<and> x + w \<le> container_w problem \<and> y + h \<le> container_h problem))"

text \<open>A problem small enough to run all solvers on: tiles 2 by 1 in a container 3 by 2.\<close>

definition small_problem :: PackingProblem where
  "small_problem = \<lparr>container_w = 3, container_h = 2, tile_w = 2, tile_h = 1,
                      max_tiles = None, allow_rotation = True, require_centering = True\<rparr>"

section \<open>Invariants used in the proofs\<close>

text \<open>
  What \<open>_find_rectangular_arrangements\<close> has checked of every arrangement it returns.
\<close>

definition fitting :: "PackingProblem \<Rightarrow> arrangement \<Rightarrow> bool" where
  "fitting problem a =
     (case a of (rows, cols, start_x, start_y, total_tiles) \<Rightarrow>
        cols * tile_w problem \<le> container_w problem \<and>
        rows * tile_h problem \<le> container_h problem \<and>
        start_x = (container_w problem - cols * tile_w problem) div 2 \<and>
        start_y = (container_h problem - rows * tile_h problem) div 2)"

text \<open>The unit cells that a placement covers.\<close>

definition tile_cells :: "TilePosition \<Rightarrow> (int \<times> int) set" where
  "tile_cells t = (case t of (x, y, w, h, orientation) \<Rightarrow> {x..x + w - 1} \<times> {y..y + h - 1})"

text \<open>
  The invariant of both greedy loops: the placed tiles are apart and inside, have the
  size of the problem's tile, and \<open>occupied\<close> holds all their cells.
\<close>

definition greedy_inv :: "PackingProblem \<Rightarrow> TilePosition list \<Rightarrow> (int \<times> int) set \<Rightarrow> bool" where
  "greedy_inv problem placed occupied =
     (well_placed problem placed \<and>
      (\<forall>t\<in>set placed. tile_cells t \<subseteq> occupied \<and>
         (\<exists>x y orientation. t = (x, y, tile_w problem, tile_h problem, orientation))))"

text \<open>
  A grid of \<open>H\<close> rows of \<open>W\<close> cells; the cells of a box with first cell \<open>(r, c)\<close>,
  \<open>h\<close> rows high and \<open>w\<close> columns wide; the cells of the grid that carry the label
  \<open>v\<close>.
\<close>

definition rectangular :: "nat \<Rightarrow> nat \<Rightarrow> grid \<Rightarrow> bool" where
  "rectangular H W g = (length g = H \<and> (\<forall>i<H. length (g ! i) = W))"

definition box :: "nat \<Rightarrow> nat \<Rightarrow> nat \<Rightarrow> nat \<Rightarrow> (nat \<times> nat) set" where
  "box r c h w = {r..<r + h} \<times> {c..<c + w}"

definition label_region :: "nat \<Rightarrow> nat \<Rightarrow> grid \<Rightarrow> int \<Rightarrow> (nat \<times> nat) set" where
  "label_region H W g v = {(i, j). i < H \<and> j < W \<and> g ! i ! j = v}"

text \<open>
  The invariant of the search: the grid has \<open>H\<close> rows of \<open>W\<close> cells, every label is
  below the next tile id \<open>k\<close>, and the cells of every label but \<open>0\<close> that occurs form a
  non-empty box inside the grid.
\<close>

definition is_box_of :: "nat \<Rightarrow> nat \<Rightarrow> grid \<Rightarrow> int \<Rightarrow> nat \<times> nat \<times> nat \<times> nat \<Rightarrow> bool" where
  "is_box_of H W g v b =
     (case b of (r, c, h, w) \<Rightarrow>
        0 < h \<and> 0 < w \<and> r + h \<le> H \<and> c + w \<le> W \<and> label_region H W g v = box r c h w)"

definition tiled :: "nat \<Rightarrow> nat \<Rightarrow> grid \<Rightarrow> int \<Rightarrow> bool" where
  "tiled H W g k =
     (rectangular H W g \<and>
      (\<forall>i<H. \<forall>j<W. g ! i ! j < k) \<and>
      (\<forall>v. v \<noteq> 0 \<longrightarrow> label_region H W g v \<noteq> {} \<longrightarrow> (\<exists>b. is_box_of H W g v b)))"

text \<open>
  The cells that the scan has passed when it stands at \<open>(r, c)\<close>, and the invariant
  of the scan: the dictionary has one entry per key, every entry gives the box of its
  label, and every label met so far has an entry.
\<close>

definition passed_cells :: "nat \<Rightarrow> nat \<Rightarrow> nat \<Rightarrow> nat \<Rightarrow> (nat \<times> nat) set" where
  "passed_cells H W r c = {(a, b). a < H \<and> b < W \<and> (a < r \<or> (a = r \<and> b < c))}"

definition entry_ok :: "nat \<Rightarrow> nat \<Rightarrow> grid \<Rightarrow> int \<times> TilePosition \<Rightarrow> bool" where
  "entry_ok H W g e =
     (case e of (v, x, y, w, h, orientation) \<Rightarrow>
        v \<noteq> 0 \<and> (\<exists>r c hn wn. x = int c \<and> y = int r \<and> w = int wn \<and> h = int hn \<and>
                    is_box_of H W g v (r, c, hn, wn)))"

definition scan_inv :: "nat \<Rightarrow> nat \<Rightarrow> grid \<Rightarrow> (int \<times> TilePosition) list \<Rightarrow> (nat \<times> nat) set \<Rightarrow> bool" where
  "scan_inv H W g tiles S =
     (distinct (map fst tiles) \<and> (\<forall>e\<in>set tiles. entry_ok H W g e) \<and>
      (\<forall>(a, b)\<in>S. g ! a ! b \<noteq> 0 \<longrightarrow> g ! a ! b \<in> fst ` set tiles))"

text \<open>Every solution recorded so far is apart and inside.\<close>

definition recorded_ok :: "PackingProblem \<Rightarrow> bt_state \<Rightarrow> bool" where
  "recorded_ok problem st = (\<forall>sol\<in>set (solutions_of st). well_placed problem sol)"

text \<open>
  The unit cells that an arrangement covers, and where the point rotations of
  geometry.py (\<open>rotate_point_90\<close>, \<open>rotate_point_180\<close>, \<open>rotate_point_270\<close>:
  rotations of a point around the container centre) take them. An arrangement is
  self-symmetric under a rotation when the rotated cells are the covered cells.
\<close>

definition covered_cells :: "TilePosition list \<Rightarrow> (int \<times> int) set" where
  "covered_cells positions = \<Union> (set (map tile_cells positions))"

definition cells_rotated_90 :: "TilePosition list \<Rightarrow> int \<Rightarrow> int \<Rightarrow> (int \<times> int) set" where
  "cells_rotated_90 positions cw ch
     = (\<lambda>(x, y). rotate_point_90 x y cw ch) ` covered_cells positions"

definition cells_rotated_180 :: "TilePosition list \<Rightarrow> int \<Rightarrow> int \<Rightarrow> (int \<times> int) set" where
  "cells_rotated_180 positions cw ch
     = (\<lambda>(x, y). rotate_point_180 x y cw ch) ` covered_cells positions"

definition cells_rotated_270 :: "TilePosition list \<Rightarrow> int \<Rightarrow> int \<Rightarrow> (int \<times> int) set" where
  "cells_rotated_270 positions cw ch
     = (\<lambda>(x, y). rotate_point_270 x y cw ch) ` covered_cells positions"

section \<open>The loop of the merge pass (packing.py, FreeRectangleManager)\<close>

text \<open>
  The loop of \<open>_merge_rectangles\<close> needs a termination proof, and the proof needs to
  know that a pass which merges returns a shorter list: of the rectangles not yet used,
  each step of the pass moves one to the new list, and a merging step uses up a second.
\<close>

lemma find_merge_Some:
  "find_merge rect1 xs used = Some (j, m) \<Longrightarrow> j \<notin> used \<and> j \<in> fst ` set xs"
  by (induction xs) (auto split: if_splits)

lemma unused_count_mono: "used \<subseteq> used' \<Longrightarrow> unused_count used' xs \<le> unused_count used xs"
  unfolding unused_count_def
  by (induction xs) auto

lemma unused_count_less:
  "used \<subseteq> used' \<Longrightarrow> j \<in> fst ` set xs \<Longrightarrow> j \<notin> used \<Longrightarrow> j \<in> used' \<Longrightarrow>
   unused_count used' xs < unused_count used xs"
proof (induction xs)
  case Nil
  then show ?case by simp
next
  case (Cons a xs)
  have mono: "unused_count used' xs \<le> unused_count used xs"
    using Cons.prems(1) by (rule unused_count_mono)
  show ?case
  proof (cases "fst a = j")
    case True
    then show ?thesis
      using Cons.prems mono by (simp add: unused_count_def)
  next
    case False
    then have "j \<in> fst ` set xs" using Cons.prems(2) by auto
    then have "unused_count used' xs < unused_count used xs"
      using Cons.IH Cons.prems by blast
    then show ?thesis
      using Cons.prems(1) by (auto simp: unused_count_def)
  qed
qed

lemma merge_pass_loop_length:
  "length (fst (merge_pass_loop xs used new_rects merged)) +
     (if snd (merge_pass_loop xs used new_rects merged) \<and> \<not> merged then 1 else 0)
   \<le> length new_rects + unused_count used xs"
proof (induction xs used new_rects merged rule: merge_pass_loop.induct)
  case (1 used new_rects merged)
  then show ?case by simp
next
  case (2 i rect1 rest used new_rects merged)
  show ?case
  proof (cases "i \<in> used")
    case True
    then show ?thesis using "2.IH"(1) by (simp add: unused_count_def)
  next
    case False
    show ?thesis
    proof (cases "find_merge rect1 rest used")
      case None
      then show ?thesis
        using False "2.IH"(2)[OF False None]
        by (cases merged) (auto simp: unused_count_def split: if_splits)
    next
      case (Some jm)
      obtain j m where jm: "jm = (j, m)" by (cases jm)
      have fm: "find_merge rect1 rest used = Some (j, m)" using Some jm by simp
      have j: "j \<notin> used" "j \<in> fst ` set rest"
        using find_merge_Some[OF fm] by auto
      have less: "unused_count (insert j (insert i used)) rest < unused_count used rest"
        by (rule unused_count_less) (use j in auto)
      have ih: "length (fst (merge_pass_loop rest (insert j (insert i used)) (new_rects @ [m]) True))
                  \<le> length (new_rects @ [m]) + unused_count (insert j (insert i used)) rest"
        using "2.IH"(3)[OF False fm refl] by simp
      show ?thesis
        using False fm ih less by (simp add: unused_count_def)
    qed
  qed
qed

lemma unused_count_empty: "unused_count {} xs = length xs"
  by (simp add: unused_count_def)

lemma merge_pass_shrinks:
  "merge_pass free_rects = (new_rects, True) \<Longrightarrow> length new_rects < length free_rects"
  using merge_pass_loop_length[of "enumerate 0 free_rects" "{}" "[]" False]
  by (simp add: merge_pass_def unused_count_empty)

text \<open>
  \<open>_merge_rectangles\<close>: the loop \<open>while merged\<close> runs a first pass and repeats as long as
  a pass has merged a pair. It terminates because a pass that merges returns a shorter
  list.
\<close>

function merge_rectangles :: "rect list \<Rightarrow> rect list" where
  "merge_rectangles free_rects =
     (case merge_pass free_rects of
        (new_rects, merged) \<Rightarrow> if merged then merge_rectangles new_rects else new_rects)"
  by pat_completeness auto
termination
  by (relation "measure length") (auto dest: merge_pass_shrinks[OF sym])

declare merge_rectangles.simps [simp del]

section \<open>Problem construction\<close>

lemma post_init_ok_iff:
  "(post_init p = Inr p) =
     (0 < container_w p \<and> 0 < container_h p \<and> 0 < tile_w p \<and> 0 < tile_h p \<and>
      tile_w p \<le> container_w p \<and> tile_h p \<le> container_h p)"
  by (auto simp: post_init_def)

lemma post_init_result: "post_init p = Inr q \<Longrightarrow> q = p"
  by (auto simp: post_init_def split: if_splits)

text \<open>
  C2, evaluated on the code: the container is 5 wide and 10 high, the tile 10 wide and
  5 high, rotation is allowed. The tile fits only after a quarter turn. The claim says
  that construction succeeds; the third check of \<open>__post_init__\<close> compares the tile
  with the container in the original orientation only, never reads \<open>allow_rotation\<close>,
  and raises.
\<close>

theorem post_init_rejects_rotated_only_fit:
  "post_init \<lparr>container_w = 5, container_h = 10, tile_w = 10, tile_h = 5,
              max_tiles = None, allow_rotation = True, require_centering = True\<rparr>
     = Inl (ValueError ''Tile cannot fit in container'')"
  by (simp add: post_init_def)

text \<open>
  C3, evaluated on the code: for the container 5 by 5 and the tile 10 by 10 the claim says
  that solving gives a result with zero tiles. No solver is ever reached: building the
  problem already raises \<open>ValueError\<close>.
\<close>

theorem mk_problem_5_5_10_10_raises:
  "mk_problem 5 5 10 10 = Inl (ValueError ''Tile cannot fit in container'')"
  by (simp add: mk_problem_def post_init_def)

section \<open>The merge pass terminates at a fixed point\<close>

lemma mergeable_sym: "mergeable a b = mergeable b a"
  by (cases a; cases b) (auto simp: mergeable_def can_merge_horizontally_def can_merge_vertically_def)

lemma merge_pass_loop_True: "snd (merge_pass_loop xs used new_rects True)"
  by (induction xs used new_rects True rule: merge_pass_loop.induct)
     (auto split: option.splits)

lemma find_merge_None:
  "find_merge rect1 xs used = None \<Longrightarrow> (j, rect2) \<in> set xs \<Longrightarrow> j \<notin> used \<Longrightarrow>
   \<not> mergeable rect1 rect2"
  by (induction xs) (auto simp: mergeable_def split: if_splits)

lemma merge_pass_loop_no_merge:
  "\<not> snd (merge_pass_loop xs {} new_rects merged) \<Longrightarrow>
   fst (merge_pass_loop xs {} new_rects merged) = new_rects @ map snd xs \<and>
   no_mergeable_pair (map snd xs)"
proof (induction xs arbitrary: new_rects)
  case Nil
  then show ?case by simp
next
  case (Cons a xs)
  obtain i rect1 where a: "a = (i, rect1)" by (cases a)
  show ?case
  proof (cases "find_merge rect1 xs {}")
    case None
    then have run: "merge_pass_loop (a # xs) {} new_rects merged
                    = merge_pass_loop xs {} (new_rects @ [rect1]) merged"
      by (simp add: a)
    have "\<not> snd (merge_pass_loop xs {} (new_rects @ [rect1]) merged)"
      using Cons.prems run by simp
    from Cons.IH[OF this]
    have ih: "fst (merge_pass_loop xs {} (new_rects @ [rect1]) merged) = (new_rects @ [rect1]) @ map snd xs"
      "no_mergeable_pair (map snd xs)" by auto
    have "\<not> mergeable rect1 rect2" if r2: "rect2 \<in> snd ` set xs" for rect2
    proof -
      obtain j where "(j, rect2) \<in> set xs" using r2 by force
      then show ?thesis using find_merge_None[OF None] by simp
    qed
    then have "list_all (\<lambda>r2. \<not> mergeable rect1 r2) (map snd xs)"
      by (auto simp: list_all_iff)
    then show ?thesis using ih run by (simp add: a)
  next
    case (Some jm)
    obtain j m where "jm = (j, m)" by (cases jm)
    then have "merge_pass_loop (a # xs) {} new_rects merged
                = merge_pass_loop xs (insert j (insert i {})) (new_rects @ [m]) True"
      using Some by (simp add: a)
    then have "snd (merge_pass_loop (a # xs) {} new_rects merged)"
      by (simp add: merge_pass_loop_True)
    then show ?thesis using Cons.prems by simp
  qed
qed

lemma merge_pass_fixed:
  "merge_pass rs = (new_rects, False) \<Longrightarrow> new_rects = rs \<and> no_mergeable_pair rs"
  using merge_pass_loop_no_merge[of "enumerate 0 rs" "[]" False]
  by (simp add: merge_pass_def)

lemma merge_rectangles_fixed:
  "merge_pass (merge_rectangles rs) = (merge_rectangles rs, False)"
proof (induction rs rule: merge_rectangles.induct)
  case (1 free_rects)
  obtain new_rects merged where mp: "merge_pass free_rects = (new_rects, merged)"
    by (cases "merge_pass free_rects")
  show ?case
  proof (cases merged)
    case True
    then show ?thesis using "1.IH"[OF mp[symmetric]] mp by (simp add: merge_rectangles.simps[of free_rects])
  next
    case False
    then have "new_rects = free_rects" using merge_pass_fixed[of free_rects new_rects] mp by simp
    then show ?thesis using mp False by (simp add: merge_rectangles.simps[of free_rects])
  qed
qed

lemma merge_rectangles_length: "length (merge_rectangles rs) \<le> length rs"
proof (induction rs rule: merge_rectangles.induct)
  case (1 free_rects)
  obtain new_rects merged where mp: "merge_pass free_rects = (new_rects, merged)"
    by (cases "merge_pass free_rects")
  show ?case
  proof (cases merged)
    case True
    then have "length new_rects < length free_rects" using merge_pass_shrinks mp by simp
    then show ?thesis using "1.IH"[OF mp[symmetric]] mp True by (simp add: merge_rectangles.simps[of free_rects])
  next
    case False
    then have "new_rects = free_rects" using merge_pass_fixed[of free_rects new_rects] mp by simp
    then show ?thesis using mp False by (simp add: merge_rectangles.simps[of free_rects])
  qed
qed

lemma no_mergeable_pair_nth:
  "no_mergeable_pair rs \<Longrightarrow> i < j \<Longrightarrow> j < length rs \<Longrightarrow> \<not> mergeable (rs ! i) (rs ! j)"
proof (induction rs arbitrary: i j)
  case Nil
  then show ?case by simp
next
  case (Cons r rs)
  show ?case
  proof (cases i)
    case 0
    then obtain j' where "j = Suc j'" "j' < length rs" using Cons.prems by (cases j) auto
    then show ?thesis using Cons.prems(1) 0 by (auto simp: list_all_iff)
  next
    case (Suc i')
    then obtain j' where "j = Suc j'" "i' < j'" "j' < length rs" using Cons.prems by (cases j) auto
    then show ?thesis using Cons.IH[of i' j'] Cons.prems(1) Suc by simp
  qed
qed

text \<open>
  C10. For every list of free rectangles: a pass of the merge loop that merges returns a
  strictly shorter list (which is why the loop \<open>merge_rectangles\<close> is a total function:
  its termination proof uses this measure), the list on exit is a fixed point of the
  pass (a further pass changes nothing and merges nothing), it is no longer than the
  input, and no two of its rectangles pass the horizontal test (same \<open>y\<close>, same
  height, adjacent in \<open>x\<close>) or the vertical test (same \<open>x\<close>, same width, adjacent
  in \<open>y\<close>).
\<close>

theorem merge_rectangles_terminates_at_fixed_point:
  "(\<forall>new_rects. merge_pass rs = (new_rects, True) \<longrightarrow> length new_rects < length rs) \<and>
   merge_pass (merge_rectangles rs) = (merge_rectangles rs, False) \<and>
   length (merge_rectangles rs) \<le> length rs \<and>
   (\<forall>i < length (merge_rectangles rs). \<forall>j < length (merge_rectangles rs). i \<noteq> j \<longrightarrow>
      \<not> can_merge_horizontally (merge_rectangles rs ! i) (merge_rectangles rs ! j) \<and>
      \<not> can_merge_vertically (merge_rectangles rs ! i) (merge_rectangles rs ! j))"
proof (intro conjI allI impI)
  fix new_rects
  assume "merge_pass rs = (new_rects, True)"
  then show "length new_rects < length rs" by (rule merge_pass_shrinks)
next
  show "merge_pass (merge_rectangles rs) = (merge_rectangles rs, False)"
    by (rule merge_rectangles_fixed)
next
  show "length (merge_rectangles rs) \<le> length rs"
    by (rule merge_rectangles_length)
next
  fix i j
  assume ij: "i < length (merge_rectangles rs)" "j < length (merge_rectangles rs)" "i \<noteq> j"
  have fixed: "no_mergeable_pair (merge_rectangles rs)"
    using merge_pass_fixed[OF merge_rectangles_fixed] by simp
  have "\<not> mergeable (merge_rectangles rs ! i) (merge_rectangles rs ! j)"
  proof (cases "i < j")
    case True
    then show ?thesis using no_mergeable_pair_nth[OF fixed] ij by simp
  next
    case False
    then have "j < i" using ij by simp
    then have "\<not> mergeable (merge_rectangles rs ! j) (merge_rectangles rs ! i)"
      using no_mergeable_pair_nth[OF fixed] ij by simp
    then show ?thesis by (simp add: mergeable_sym)
  qed
  then show "\<not> can_merge_horizontally (merge_rectangles rs ! i) (merge_rectangles rs ! j)"
    and "\<not> can_merge_vertically (merge_rectangles rs ! i) (merge_rectangles rs ! j)"
    by (simp_all add: mergeable_def)
qed

theorem merge_rectangles_witness:
  "merge_pass [(0, 0, 1, 1), (1, 0, 1, 1), (0, 1, 2, 1), (5, 5, 1, 1)]
     = ([(0, 0, 2, 1), (0, 1, 2, 1), (5, 5, 1, 1)], True) \<and>
   merge_rectangles [(0, 0, 1, 1), (1, 0, 1, 1), (0, 1, 2, 1), (5, 5, 1, 1)]
     = [(0, 0, 2, 2), (5, 5, 1, 1)] \<and>
   length [(0, 0, 2, 1), (0, 1, 2, 1), (5, 5, 1, 1) :: rect] < length [(0, 0, 1, 1), (1, 0, 1, 1), (0, 1, 2, 1), (5, 5, 1, 1) :: rect] \<and>
   \<not> can_merge_horizontally
       (merge_rectangles [(0, 0, 1, 1), (1, 0, 1, 1), (0, 1, 2, 1), (5, 5, 1, 1)] ! 0)
       (merge_rectangles [(0, 0, 1, 1), (1, 0, 1, 1), (0, 1, 2, 1), (5, 5, 1, 1)] ! 1)"
proof -
  let ?rs = "[(0, 0, 1, 1), (1, 0, 1, 1), (0, 1, 2, 1), (5, 5, 1, 1)] :: rect list"
  have p1: "merge_pass ?rs = ([(0, 0, 2, 1), (0, 1, 2, 1), (5, 5, 1, 1)], True)"
    by (simp add: merge_pass_def can_merge_horizontally_def can_merge_vertically_def
        merged_horizontally_def merged_vertically_def)
  have p2: "merge_pass [(0, 0, 2, 1), (0, 1, 2, 1), (5, 5, 1, 1)] = ([(0, 0, 2, 2), (5, 5, 1, 1)], True)"
    by (simp add: merge_pass_def can_merge_horizontally_def can_merge_vertically_def
        merged_horizontally_def merged_vertically_def)
  have p3: "merge_pass [(0, 0, 2, 2), (5, 5, 1, 1)] = ([(0, 0, 2, 2), (5, 5, 1, 1)], False)"
    by (simp add: merge_pass_def can_merge_horizontally_def can_merge_vertically_def
        merged_horizontally_def merged_vertically_def)
  have out: "merge_rectangles ?rs = [(0, 0, 2, 2), (5, 5, 1, 1)]"
    by (simp add: merge_rectangles.simps p1 p2 p3)
  have len: "length (merge_rectangles ?rs) = 2" by (simp add: out)
  show ?thesis
    using merge_rectangles_terminates_at_fixed_point[of ?rs] p1 out len
    by (auto simp: can_merge_horizontally_def)
qed

section \<open>Centering\<close>

lemma py_min_shift: "py_min (a + c) (map (\<lambda>v. v + c) xs) = py_min a xs + (c::int)"
  unfolding py_min_def
  by (induction xs arbitrary: a) (auto simp: fold_map o_def)

lemma py_max_shift: "py_max (a + c) (map (\<lambda>v. v + c) xs) = py_max a xs + (c::int)"
  unfolding py_max_def
  by (induction xs arbitrary: a) (auto simp: fold_map o_def)

lemma tile_x_translate:
  "map tile_x (translate_solution ps ox oy) = map (\<lambda>v. v + ox) (map tile_x ps)"
  by (auto simp: translate_solution_def tile_x_def split: prod.splits)

lemma tile_y_translate:
  "map tile_y (translate_solution ps ox oy) = map (\<lambda>v. v + oy) (map tile_y ps)"
  by (auto simp: translate_solution_def tile_y_def split: prod.splits)

lemma tile_right_translate:
  "map tile_right (translate_solution ps ox oy) = map (\<lambda>v. v + ox) (map tile_right ps)"
  by (auto simp: translate_solution_def tile_right_def split: prod.splits)

lemma tile_top_translate:
  "map tile_top (translate_solution ps ox oy) = map (\<lambda>v. v + oy) (map tile_top ps)"
  by (auto simp: translate_solution_def tile_top_def split: prod.splits)

lemma bounding_box_translate:
  assumes "ps \<noteq> []" and "calculate_bounding_box ps = (min_x, min_y, max_x, max_y)"
  shows "calculate_bounding_box (translate_solution ps ox oy)
           = (min_x + ox, min_y + oy, max_x + ox, max_y + oy)"
proof -
  obtain p qs where ps: "ps = p # qs" using assms(1) by (cases ps) auto
  obtain p' qs' where tr: "translate_solution (p # qs) ox oy = p' # qs'"
    by (cases "translate_solution (p # qs) ox oy") (auto simp: translate_solution_def)
  have x: "tile_x p' = tile_x p + ox" "map tile_x qs' = map (\<lambda>v. v + ox) (map tile_x qs)"
    using tile_x_translate[of "p # qs" ox oy] unfolding tr by simp_all
  have y: "tile_y p' = tile_y p + oy" "map tile_y qs' = map (\<lambda>v. v + oy) (map tile_y qs)"
    using tile_y_translate[of "p # qs" ox oy] unfolding tr by simp_all
  have r: "tile_right p' = tile_right p + ox"
    "map tile_right qs' = map (\<lambda>v. v + ox) (map tile_right qs)"
    using tile_right_translate[of "p # qs" ox oy] unfolding tr by simp_all
  have t: "tile_top p' = tile_top p + oy"
    "map tile_top qs' = map (\<lambda>v. v + oy) (map tile_top qs)"
    using tile_top_translate[of "p # qs" ox oy] unfolding tr by simp_all
  have "calculate_bounding_box (p' # qs')
          = (py_min (tile_x p) (map tile_x qs) + ox, py_min (tile_y p) (map tile_y qs) + oy,
             py_max (tile_right p) (map tile_right qs) + ox,
             py_max (tile_top p) (map tile_top qs) + oy)"
    unfolding calculate_bounding_box.simps Let_def x y r t py_min_shift py_max_shift ..
  then show ?thesis
    using assms(2) unfolding ps tr by (simp add: Let_def)
qed

lemma center_solution_translate:
  assumes "ps \<noteq> []" and "calculate_bounding_box ps = (min_x, min_y, max_x, max_y)"
  shows "center_solution ps cw ch
           = translate_solution ps ((cw - (max_x - min_x)) div 2 - min_x)
                                   ((ch - (max_y - min_y)) div 2 - min_y)"
proof -
  obtain p qs where ps: "ps = p # qs" using assms(1) by (cases ps) auto
  show ?thesis using assms(2) by (simp add: ps Let_def)
qed

lemma translate_solution_Nil_iff: "(translate_solution ps ox oy = []) = (ps = [])"
  by (simp add: translate_solution_def)

lemma translate_solution_zero: "translate_solution ps 0 0 = ps"
  by (induction ps) (auto simp: translate_solution_def)

lemma bounding_box_center_solution:
  assumes "ps \<noteq> []" and "calculate_bounding_box ps = (min_x, min_y, max_x, max_y)"
  shows "calculate_bounding_box (center_solution ps cw ch)
           = ((cw - (max_x - min_x)) div 2, (ch - (max_y - min_y)) div 2,
              (cw - (max_x - min_x)) div 2 + (max_x - min_x),
              (ch - (max_y - min_y)) div 2 + (max_y - min_y))"
  by (simp add: center_solution_translate[OF assms] bounding_box_translate[OF assms])

lemma center_solution_idem:
  "center_solution (center_solution ps cw ch) cw ch = center_solution ps cw ch"
proof (cases "ps = []")
  case True
  then show ?thesis by simp
next
  case False
  obtain min_x min_y max_x max_y
    where bb: "calculate_bounding_box ps = (min_x, min_y, max_x, max_y)"
    by (cases "calculate_bounding_box ps") auto
  let ?c = "center_solution ps cw ch"
  have ne: "?c \<noteq> []"
    by (simp add: center_solution_translate[OF False bb] translate_solution_Nil_iff False)
  note bb' = bounding_box_center_solution[OF False bb, of cw ch]
  show ?thesis
    by (simp add: center_solution_translate[OF ne bb'] translate_solution_zero)
qed

lemma half_floor_real:
  "\<bar>real_of_int (2 * (d div 2) + u) / 2 - real_of_int (d + u) / 2\<bar> \<le> 1 / 2"
proof -
  have "d - 2 * (d div 2) = d mod 2" by (simp add: minus_mult_div_eq_mod mult.commute)
  moreover have "0 \<le> d mod 2" "d mod 2 \<le> 1" by auto
  ultimately have "0 \<le> d - 2 * (d div 2)" "d - 2 * (d div 2) \<le> 1" by linarith+
  then have "0 \<le> real_of_int d - 2 * real_of_int (d div 2)"
     "real_of_int d - 2 * real_of_int (d div 2) \<le> 1"
    by (metis of_int_0_le_iff of_int_diff of_int_mult of_int_numeral,
        metis of_int_le_1_iff of_int_diff of_int_mult of_int_numeral)
  then show ?thesis by (simp add: field_simps abs_le_iff)
qed

text \<open>
  C8. For every non-empty placement list (whether or not it fits the container), the
  centre of the bounding box of \<open>center_solution\<close>'s result is within 1 unit of
  \<open>(container_w / 2, container_h / 2)\<close>, on each axis and in Euclidean distance, and
  centering a second time gives the same bounding box as centering once.
\<close>

theorem center_solution_centers_and_is_idempotent:
  assumes "ps \<noteq> []"
  shows "(case bbox_center (calculate_bounding_box (center_solution ps cw ch)) of (cx, cy) \<Rightarrow>
            \<bar>cx - real_of_int cw / 2\<bar> \<le> 1 \<and> \<bar>cy - real_of_int ch / 2\<bar> \<le> 1 \<and>
            (cx - real_of_int cw / 2)\<^sup>2 + (cy - real_of_int ch / 2)\<^sup>2 \<le> 1) \<and>
         calculate_bounding_box (center_solution (center_solution ps cw ch) cw ch)
           = calculate_bounding_box (center_solution ps cw ch)"
proof -
  obtain min_x min_y max_x max_y
    where bb: "calculate_bounding_box ps = (min_x, min_y, max_x, max_y)"
    by (cases "calculate_bounding_box ps") auto
  define uw where "uw = max_x - min_x"
  define uh where "uh = max_y - min_y"
  define cx where "cx = real_of_int ((cw - uw) div 2 + ((cw - uw) div 2 + uw)) / 2"
  define cy where "cy = real_of_int ((ch - uh) div 2 + ((ch - uh) div 2 + uh)) / 2"
  have c: "bbox_center (calculate_bounding_box (center_solution ps cw ch)) = (cx, cy)"
    by (simp add: bounding_box_center_solution[OF assms bb] bbox_center_def cx_def cy_def
        uw_def uh_def)
  have x: "\<bar>cx - real_of_int cw / 2\<bar> \<le> 1 / 2"
    using half_floor_real[of "cw - uw" uw] by (simp add: cx_def algebra_simps)
  have y: "\<bar>cy - real_of_int ch / 2\<bar> \<le> 1 / 2"
    using half_floor_real[of "ch - uh" uh] by (simp add: cy_def algebra_simps)
  have sq: "(cx - real_of_int cw / 2)\<^sup>2 \<le> (1 / 2)\<^sup>2" "(cy - real_of_int ch / 2)\<^sup>2 \<le> (1 / 2)\<^sup>2"
    using x y by (metis abs_le_square_iff abs_ge_zero abs_of_nonneg order_trans zero_le_divide_1_iff zero_le_numeral)+
  have "(cx - real_of_int cw / 2)\<^sup>2 + (cy - real_of_int ch / 2)\<^sup>2 \<le> 1"
    using sq by (simp add: power2_eq_square)
  then show ?thesis
    using x y c by (simp add: center_solution_idem)
qed

theorem center_solution_witness:
  "[(10, 10, 5, 5, ''original''), (15, 10, 5, 5, ''original'')] \<noteq> ([] :: TilePosition list) \<and>
   center_solution [(10, 10, 5, 5, ''original''), (15, 10, 5, 5, ''original'')] 30 30
     = [(10, 12, 5, 5, ''original''), (15, 12, 5, 5, ''original'')] \<and>
   bbox_center (calculate_bounding_box
       (center_solution [(10, 10, 5, 5, ''original''), (15, 10, 5, 5, ''original'')] 30 30))
     = (15, 29 / 2) \<and>
   calculate_bounding_box (center_solution
       (center_solution [(10, 10, 5, 5, ''original''), (15, 10, 5, 5, ''original'')] 30 30) 30 30)
     = (10, 12, 20, 17)"
proof -
  let ?ps = "[(10, 10, 5, 5, ''original''), (15, 10, 5, 5, ''original'')] :: TilePosition list"
  have ne: "?ps \<noteq> []" by simp
  have c: "center_solution ?ps 30 30 = [(10, 12, 5, 5, ''original''), (15, 12, 5, 5, ''original'')]"
    by (simp add: Let_def py_min_def py_max_def tile_x_def tile_y_def tile_right_def tile_top_def
        translate_solution_def)
  have b: "calculate_bounding_box [(10, 12, 5, 5, ''original''), (15, 12, 5, 5, ''original'')]
             = (10, 12, 20, 17)"
    by (simp add: Let_def py_min_def py_max_def tile_x_def tile_y_def tile_right_def tile_top_def)
  note t = center_solution_centers_and_is_idempotent[OF ne, of 30 30, unfolded c]
  have t2: "calculate_bounding_box
      (center_solution [(10, 12, 5, 5, ''original''), (15, 12, 5, 5, ''original'')] 30 30)
      = (10, 12, 20, 17)"
    using t[THEN conjunct2] by (simp only: b)
  show ?thesis
    unfolding c b t2 by (simp add: bbox_center_def)
qed

section \<open>Deduplication\<close>

lemma dedup_loop_acc:
  "dedup_loop cw ch sols seen acc = acc @ dedup_loop cw ch sols seen []"
proof (induction sols arbitrary: seen acc)
  case Nil
  then show ?case by simp
next
  case (Cons s sols)
  show ?case
    using Cons.IH[of "insert (get_canonical_form (tile_positions s) cw ch) seen" "acc @ [s]"]
          Cons.IH[of "insert (get_canonical_form (tile_positions s) cw ch) seen" "[s]"]
          Cons.IH[of seen acc]
    by (simp add: Let_def)
qed

lemma dedup_loop_Cons:
  "dedup_loop cw ch (s # sols) seen [] =
     (if get_canonical_form (tile_positions s) cw ch \<in> seen then dedup_loop cw ch sols seen []
      else s # dedup_loop cw ch sols (insert (get_canonical_form (tile_positions s) cw ch) seen) [])"
  using dedup_loop_acc[of cw ch sols "insert (get_canonical_form (tile_positions s) cw ch) seen" "[s]"]
  by (simp add: Let_def)

lemma dedup_loop_keys:
  "distinct (map (\<lambda>s. get_canonical_form (tile_positions s) cw ch) (dedup_loop cw ch sols seen [])) \<and>
   (\<lambda>s. get_canonical_form (tile_positions s) cw ch) ` set (dedup_loop cw ch sols seen []) \<inter> seen = {}
   \<and> (\<lambda>s. get_canonical_form (tile_positions s) cw ch) ` set (dedup_loop cw ch sols seen [])
       \<subseteq> (\<lambda>s. get_canonical_form (tile_positions s) cw ch) ` set sols"
proof (induction sols arbitrary: seen)
  case Nil
  then show ?case by simp
next
  case (Cons s sols)
  show ?case
    using Cons.IH[of seen] Cons.IH[of "insert (get_canonical_form (tile_positions s) cw ch) seen"]
    by (auto simp: dedup_loop_Cons simp del: dedup_loop.simps)
qed

lemma dedup_loop_distinct_id:
  "distinct (map (\<lambda>s. get_canonical_form (tile_positions s) cw ch) sols) \<Longrightarrow>
   (\<lambda>s. get_canonical_form (tile_positions s) cw ch) ` set sols \<inter> seen = {} \<Longrightarrow>
   dedup_loop cw ch sols seen [] = sols"
proof (induction sols arbitrary: seen)
  case Nil
  then show ?case by simp
next
  case (Cons s sols)
  have "dedup_loop cw ch sols (insert (get_canonical_form (tile_positions s) cw ch) seen) [] = sols"
    using Cons.prems by (intro Cons.IH) auto
  then show ?case using Cons.prems by (auto simp: dedup_loop_Cons simp del: dedup_loop.simps)
qed

lemma dedup_loop_idem:
  "dedup_loop cw ch (dedup_loop cw ch sols {} []) {} [] = dedup_loop cw ch sols {} []"
  using dedup_loop_keys[of cw ch sols "{}"] by (intro dedup_loop_distinct_id) auto

lemma dedup_loop_nth:
  "dedup_loop cw ch sols seen [] =
     map (\<lambda>i. sols ! i)
       (filter (\<lambda>i. get_canonical_form (tile_positions (sols ! i)) cw ch \<notin> seen \<and>
                    (\<forall>j<i. get_canonical_form (tile_positions (sols ! j)) cw ch
                             \<noteq> get_canonical_form (tile_positions (sols ! i)) cw ch))
          [0..<length sols])"
proof (induction sols arbitrary: seen)
  case Nil
  then show ?case by simp
next
  case (Cons s sols)
  let ?k = "\<lambda>s. get_canonical_form (tile_positions s) cw ch"
  have upt: "[0..<Suc (length sols)] = 0 # map Suc [0..<length sols]"
    by (simp add: upt_conv_Cons map_Suc_upt del: upt_Suc)
  have all: "(\<forall>j<Suc i. ?k ((s # sols) ! j) \<noteq> ?k (sols ! i))
              = (?k s \<noteq> ?k (sols ! i) \<and> (\<forall>j<i. ?k (sols ! j) \<noteq> ?k (sols ! i)))" for i
    by (simp add: All_less_Suc2)
  show ?case
  proof (cases "?k s \<in> seen")
    case True
    have "filter (\<lambda>i. ?k (sols ! i) \<notin> seen \<and> ?k s \<noteq> ?k (sols ! i) \<and> (\<forall>j<i. ?k (sols ! j) \<noteq> ?k (sols ! i))) [0..<length sols]
        = filter (\<lambda>i. ?k (sols ! i) \<notin> seen \<and> (\<forall>j<i. ?k (sols ! j) \<noteq> ?k (sols ! i))) [0..<length sols]"
      using True by (intro filter_cong) auto
    then show ?thesis
      using True Cons.IH[of seen]
      by (simp add: dedup_loop_Cons upt filter_map o_def all del: upt_Suc dedup_loop.simps)
  next
    case False
    have "filter (\<lambda>i. ?k (sols ! i) \<notin> seen \<and> ?k s \<noteq> ?k (sols ! i) \<and> (\<forall>j<i. ?k (sols ! j) \<noteq> ?k (sols ! i))) [0..<length sols]
        = filter (\<lambda>i. ?k (sols ! i) \<notin> insert (?k s) seen \<and> (\<forall>j<i. ?k (sols ! j) \<noteq> ?k (sols ! i))) [0..<length sols]"
      by (intro filter_cong) auto
    then show ?thesis
      using False Cons.IH[of "insert (?k s) seen"]
      by (simp add: dedup_loop_Cons upt filter_map o_def all del: upt_Suc dedup_loop.simps)
  qed
qed

text \<open>
  C9. For every list of solutions \<open>S\<close> and every problem, deduplicating twice gives
  the same list as deduplicating once, and deduplication keeps exactly the solutions
  that are the first of their canonical form in \<open>S\<close>, in input order.
\<close>

theorem deduplicate_solutions_idempotent:
  "deduplicate_solutions (deduplicate_solutions S problem) problem = deduplicate_solutions S problem \<and>
   deduplicate_solutions S problem = first_of_each_class problem S"
proof
  show "deduplicate_solutions (deduplicate_solutions S problem) problem = deduplicate_solutions S problem"
    by (simp add: deduplicate_solutions_def dedup_loop_idem)
  have "dedup_loop (container_w problem) (container_h problem) S {} [] = first_of_each_class problem S"
    by (simp add: dedup_loop_nth first_of_each_class_def canonical_key_def list_all_iff Ball_def)
  then show "deduplicate_solutions S problem = first_of_each_class problem S"
    by (auto simp: deduplicate_solutions_def first_of_each_class_def)
qed

theorem deduplicate_solutions_witness:
  "deduplicate_solutions
     [\<lparr>tile_positions = [(0, 0, 3, 5, ''original''), (3, 0, 3, 5, ''original'')],
       sol_container_w = 20, sol_container_h = 20, solver_name = ''first''\<rparr>,
      \<lparr>tile_positions = [(3, 0, 3, 5, ''original''), (0, 0, 3, 5, ''original'')],
       sol_container_w = 20, sol_container_h = 20, solver_name = ''second''\<rparr>,
      \<lparr>tile_positions = [(0, 0, 3, 5, ''original''), (0, 5, 3, 5, ''original'')],
       sol_container_w = 20, sol_container_h = 20, solver_name = ''third''\<rparr>]
     \<lparr>container_w = 20, container_h = 20, tile_w = 3, tile_h = 5,
      max_tiles = None, allow_rotation = True, require_centering = True\<rparr>
   = [\<lparr>tile_positions = [(0, 0, 3, 5, ''original''), (3, 0, 3, 5, ''original'')],
       sol_container_w = 20, sol_container_h = 20, solver_name = ''first''\<rparr>,
      \<lparr>tile_positions = [(0, 0, 3, 5, ''original''), (0, 5, 3, 5, ''original'')],
       sol_container_w = 20, sol_container_h = 20, solver_name = ''third''\<rparr>] \<and>
   deduplicate_solutions
     [\<lparr>tile_positions = [(0, 0, 3, 5, ''original''), (3, 0, 3, 5, ''original'')],
       sol_container_w = 20, sol_container_h = 20, solver_name = ''first''\<rparr>,
      \<lparr>tile_positions = [(0, 0, 3, 5, ''original''), (0, 5, 3, 5, ''original'')],
       sol_container_w = 20, sol_container_h = 20, solver_name = ''third''\<rparr>]
     \<lparr>container_w = 20, container_h = 20, tile_w = 3, tile_h = 5,
      max_tiles = None, allow_rotation = True, require_centering = True\<rparr>
   = [\<lparr>tile_positions = [(0, 0, 3, 5, ''original''), (3, 0, 3, 5, ''original'')],
       sol_container_w = 20, sol_container_h = 20, solver_name = ''first''\<rparr>,
      \<lparr>tile_positions = [(0, 0, 3, 5, ''original''), (0, 5, 3, 5, ''original'')],
       sol_container_w = 20, sol_container_h = 20, solver_name = ''third''\<rparr>]"
proof -
  let ?a = "\<lparr>tile_positions = [(0, 0, 3, 5, ''original''), (3, 0, 3, 5, ''original'')],
       sol_container_w = 20, sol_container_h = 20, solver_name = ''first''\<rparr>"
  let ?b = "\<lparr>tile_positions = [(3, 0, 3, 5, ''original''), (0, 0, 3, 5, ''original'')],
       sol_container_w = 20, sol_container_h = 20, solver_name = ''second''\<rparr>"
  let ?c = "\<lparr>tile_positions = [(0, 0, 3, 5, ''original''), (0, 5, 3, 5, ''original'')],
       sol_container_w = 20, sol_container_h = 20, solver_name = ''third''\<rparr>"
  let ?p = "\<lparr>container_w = 20, container_h = 20, tile_w = 3, tile_h = 5,
      max_tiles = None, allow_rotation = True, require_centering = True\<rparr>"
  have e: "deduplicate_solutions [?a, ?b, ?c] ?p = [?a, ?c]"
    by code_simp
  have "deduplicate_solutions [?a, ?c] ?p = [?a, ?c]"
    using deduplicate_solutions_idempotent[of "[?a, ?b, ?c]" ?p, THEN conjunct1]
    by (simp only: e)
  then show ?thesis
    using e by simp
qed

section \<open>Canonical form under the transforms\<close>

text \<open>
  C4, evaluated on the code at the input of the repository's own test
  \<open>test_rotated_solutions_same_canonical\<close>: two 5 by 3 tiles side by side in a 20 by 20
  container. The claim says that the canonical form of the rotated list equals the
  canonical form of the list. \<open>rotate_tile_90\<close> moves the tile \<open>(0, 0, 5, 3)\<close> to
  \<open>(17, 4, 3, 5)\<close>, not to the quarter turn \<open>(17, 0, 3, 5)\<close>, and the two canonical
  forms differ.
\<close>

theorem canonical_form_changes_under_rotate_90:
  "get_canonical_form [(0, 0, 5, 3, ''original''), (5, 0, 5, 3, ''original'')] 20 20
     = [(0, 0, 5, 3, ''original''), (5, 0, 5, 3, ''original'')] \<and>
   rotate_solution_90 [(0, 0, 5, 3, ''original''), (5, 0, 5, 3, ''original'')] 20 20
     = [(17, 4, 3, 5, ''original''), (17, 9, 3, 5, ''original'')] \<and>
   get_canonical_form
     (rotate_solution_90 [(0, 0, 5, 3, ''original''), (5, 0, 5, 3, ''original'')] 20 20) 20 20
     = [(- 2, 2, 3, 5, ''original''), (- 2, 7, 3, 5, ''original'')]"
  by code_simp

section \<open>Symmetry detection\<close>

text \<open>
  C7, evaluated on the code. The claim says that \<open>detect_symmetry_type\<close> reports exactly
  the transforms under which the arrangement is self-symmetric, and that it tests all
  eight.

  A 4 by 4 tile at \<open>(8, 8)\<close> is in the middle of a 20 by 20 container: each of the
  three point rotations of geometry.py maps its cells onto themselves. The tile
  rotations that \<open>detect_symmetry_type\<close> compares with move it to \<open>(8, 11)\<close>,
  \<open>(5, 5)\<close> and \<open>(11, 8)\<close>, and no rotation is reported, only the two mirrors.

  A 3 by 3 tile at \<open>(2, 4)\<close> in a 9 by 9 container is off the centre: the quarter turn
  takes its cells to those of the tile at \<open>(2, 2)\<close>. \<open>rotate_solution_90\<close> leaves the
  tile where it is, and \<open>rotational_90\<close> is reported.

  A unit tile in the corner of a 4 by 4 container is left unchanged by the mirrored
  quarter turn, the sixth of the eight transforms that \<open>get_canonical_form\<close> applies;
  \<open>detect_symmetry_type\<close> tests the three rotations and the two mirrors only, and
  reports nothing.
\<close>

theorem detect_symmetry_type_misreports_rotations:
  "cells_rotated_90 [(8, 8, 4, 4, ''original'')] 20 20
     = covered_cells [(8, 8, 4, 4, ''original'')] \<and>
   cells_rotated_180 [(8, 8, 4, 4, ''original'')] 20 20
     = covered_cells [(8, 8, 4, 4, ''original'')] \<and>
   cells_rotated_270 [(8, 8, 4, 4, ''original'')] 20 20
     = covered_cells [(8, 8, 4, 4, ''original'')] \<and>
   rotate_solution_90 [(8, 8, 4, 4, ''original'')] 20 20 = [(8, 11, 4, 4, ''original'')] \<and>
   rotate_solution_180 [(8, 8, 4, 4, ''original'')] 20 20 = [(5, 5, 4, 4, ''original'')] \<and>
   rotate_solution_270 [(8, 8, 4, 4, ''original'')] 20 20 = [(11, 8, 4, 4, ''original'')] \<and>
   detect_symmetry_type [(8, 8, 4, 4, ''original'')] 20 20
     = [''mirror_horizontal'', ''mirror_vertical''] \<and>
   cells_rotated_90 [(2, 4, 3, 3, ''original'')] 9 9
     = covered_cells [(2, 2, 3, 3, ''original'')] \<and>
   cells_rotated_90 [(2, 4, 3, 3, ''original'')] 9 9
     \<noteq> covered_cells [(2, 4, 3, 3, ''original'')] \<and>
   rotate_solution_90 [(2, 4, 3, 3, ''original'')] 9 9 = [(2, 4, 3, 3, ''original'')] \<and>
   detect_symmetry_type [(2, 4, 3, 3, ''original'')] 9 9 = [''rotational_90''] \<and>
   all_transforms [(0, 0, 1, 1, ''original'')] 4 4 ! 5
     = mirror_solution_horizontal (rotate_solution_90 [(0, 0, 1, 1, ''original'')] 4 4) 4 \<and>
   sorted_tiles (all_transforms [(0, 0, 1, 1, ''original'')] 4 4 ! 5)
     = sorted_tiles [(0, 0, 1, 1, ''original'')] \<and>
   detect_symmetry_type [(0, 0, 1, 1, ''original'')] 4 4 = []"
  by code_simp

section \<open>Backtracking at a dead end\<close>

lemma single_tile_fit_fields:
  "container_w single_tile_fit = 15" "container_h single_tile_fit = 15"
  "tile_w single_tile_fit = 10" "tile_h single_tile_fit = 10"
  "max_tiles single_tile_fit = None" "allow_rotation single_tile_fit"
  by (simp_all add: single_tile_fit_def)

lemma single_tile_fit_limit: "max_tiles_or_theoretical single_tile_fit = 2"
  by (simp add: max_tiles_or_theoretical_def theoretical_max_tiles_def container_area_def
      tile_area_def single_tile_fit_fields)

lemma backtrack_single_tile_fit:
  assumes "2 \<le> room"
  shows "\<exists>n. backtrack_solve room expired single_tile_fit max_solutions 2 1
           \<lparr>grid_of = empty_grid single_tile_fit, solutions_of = [], checks_of = 0\<rparr>
         = Inr \<lparr>grid_of = empty_grid single_tile_fit, solutions_of = [], checks_of = n\<rparr>"
proof -
  define g0 where "g0 = empty_grid single_tile_fit"
  define g1 where "g1 = place_tile g0 0 0 10 10 1"
  obtain room' where room: "room = Suc (Suc room')"
    using assms by (metis One_nat_def Suc_1 Suc_le_D Suc_le_mono)
  have f1: "find_first_empty g0 = Some (0, 0)"
    unfolding g0_def empty_grid_def single_tile_fit_def by code_simp
  have f2: "can_place g0 0 0 10 10"
    unfolding g0_def empty_grid_def single_tile_fit_def by code_simp
  have f3: "find_first_empty g1 = Some (0, 10)"
    unfolding g1_def g0_def empty_grid_def single_tile_fit_def by code_simp
  have f4: "\<not> can_place g1 0 10 10 10"
    unfolding g1_def g0_def empty_grid_def single_tile_fit_def by code_simp
  have f5: "remove_tile g1 0 0 10 10 = g0"
    unfolding g1_def g0_def empty_grid_def single_tile_fit_def by code_simp
  have inner: "backtrack_solve (Suc room') expired single_tile_fit max_solutions 1 2
                 \<lparr>grid_of = g1, solutions_of = [], checks_of = Suc 0\<rparr>
               = Inr \<lparr>grid_of = g1, solutions_of = [], checks_of = 2\<rparr>"
    by (simp add: Let_def f3 f4 single_tile_fit_fields)
  have outer: "backtrack_solve (Suc (Suc room')) expired single_tile_fit max_solutions 2 1
                 \<lparr>grid_of = g0, solutions_of = [], checks_of = 0\<rparr>
               = Inr \<lparr>grid_of = g0, solutions_of = [],
                      checks_of = (if expired 0 \<or> 0 \<ge> max_solutions then 1 else 2)\<rparr>"
    unfolding backtrack_solve.simps(2)[of "Suc room'"]
    by (simp add: Let_def f1 f2 f5 single_tile_fit_fields try_branch_def g1_def[symmetric] inner
        del: backtrack_solve.simps(2))
  show ?thesis
    unfolding room g0_def[symmetric] outer by blast
qed

text \<open>
  C5. The problem with container 15 by 15 and tile 10 by 10 is valid and one tile can be
  placed: the tile fits at the first cell of the empty grid, and the mathematical solver
  returns one tile. Whatever the deadline checks answer and whatever \<open>max_solutions\<close> is,
  as long as the recursion limit leaves room for two nested calls,
  \<open>solve_all_optimal\<close> of the backtracking solver returns the empty list and \<open>solve\<close>
  returns a solution with no tile: after the first tile the first empty cell admits no
  tile, the grid is not full and the budget is not zero, so nothing is recorded.
\<close>

theorem backtrack_single_tile_fit_finds_nothing:
  "post_init single_tile_fit = Inr single_tile_fit \<and>
   can_place (empty_grid single_tile_fit) 0 0 (tile_h single_tile_fit) (tile_w single_tile_fit) \<and>
   num_tiles (MathematicalSolver_solve single_tile_fit) = 1 \<and>
   (\<forall>solver max_solutions. 2 \<le> recursion_room solver \<longrightarrow>
      BacktrackSolver_solve_all_optimal solver single_tile_fit max_solutions = Inr [] \<and>
      BacktrackSolver_solve solver single_tile_fit
        = Inr (mk_solution [] single_tile_fit ''Backtrack'') \<and>
      num_tiles (mk_solution [] single_tile_fit ''Backtrack'') = 0)"
proof (intro conjI allI impI)
  show "post_init single_tile_fit = Inr single_tile_fit"
    by (simp add: post_init_def single_tile_fit_def)
  show "can_place (empty_grid single_tile_fit) 0 0 (tile_h single_tile_fit) (tile_w single_tile_fit)"
    unfolding empty_grid_def single_tile_fit_def by code_simp
  show "num_tiles (MathematicalSolver_solve single_tile_fit) = 1"
    unfolding single_tile_fit_def by code_simp
next
  fix solver :: BacktrackSolver and max_solutions :: "int option"
  assume room: "2 \<le> recursion_room solver"
  have all: "BacktrackSolver_solve_all_optimal solver single_tile_fit m = Inr []" for m
  proof -
    obtain n where
      "backtrack_solve (recursion_room solver) (deadline_passed solver) single_tile_fit
         (case m of None \<Rightarrow> bt_max_solutions solver | Some k \<Rightarrow> k) 2 1
         \<lparr>grid_of = empty_grid single_tile_fit, solutions_of = [], checks_of = 0\<rparr>
       = Inr \<lparr>grid_of = empty_grid single_tile_fit, solutions_of = [], checks_of = n\<rparr>"
      using backtrack_single_tile_fit[OF room] by blast
    then show ?thesis
      by (simp add: BacktrackSolver_solve_all_optimal_def Let_def single_tile_fit_limit)
  qed
  show "BacktrackSolver_solve_all_optimal solver single_tile_fit max_solutions = Inr []"
    by (rule all)
  show "BacktrackSolver_solve solver single_tile_fit = Inr (mk_solution [] single_tile_fit ''Backtrack'')"
    by (simp add: BacktrackSolver_solve_def all)
  show "num_tiles (mk_solution [] single_tile_fit ''Backtrack'') = 0"
    by (simp add: num_tiles_def mk_solution_def)
qed

theorem backtrack_single_tile_fit_witness:
  "(2::nat) \<le> recursion_room \<lparr>bt_max_solutions = 50, deadline_passed = (\<lambda>k. False), recursion_room = 1000\<rparr> \<and>
   BacktrackSolver_solve_all_optimal
     \<lparr>bt_max_solutions = 50, deadline_passed = (\<lambda>k. False), recursion_room = 1000\<rparr>
     single_tile_fit None = Inr [] \<and>
   BacktrackSolver_solve
     \<lparr>bt_max_solutions = 50, deadline_passed = (\<lambda>k. False), recursion_room = 1000\<rparr>
     single_tile_fit
     = Inr \<lparr>tile_positions = [], sol_container_w = 15, sol_container_h = 15,
            solver_name = ''Backtrack''\<rparr>"
  using backtrack_single_tile_fit_finds_nothing
  by (simp add: mk_solution_def single_tile_fit_def)

section \<open>Provenance of the hybrid solver's result\<close>

text \<open>
  C6, evaluated on the code for the container 15 by 15 and the tile 10 by 10, where the
  mathematical solver finds one tile of the two that the area allows and neither the
  greedy nor the backtracking solver improves on it. When the elapsed time exceeds 70
  percent of the budget after the second tier, and when it exceeds 80 percent after the
  third, \<open>solve\<close> returns the solution under the name \<open>Mathematical\<close>, not
  \<open>Hybrid(Mathematical)\<close>; so it does, whatever the time, when there is no ILP
  solver. The other return paths do wrap the name, as the third equation shows for the
  last one.
\<close>

theorem hybrid_late_returns_keep_tier_name:
  "HybridSolver_solve
     \<lparr>backtrack_solver = \<lparr>bt_max_solutions = 10, deadline_passed = (\<lambda>k. False), recursion_room = 1000\<rparr>,
      over_70_percent = True, over_80_percent = True,
      ilp_solver = Some (\<lambda>problem. mk_solution [] problem ''ILP'')\<rparr>
     single_tile_fit
     = Inr \<lparr>tile_positions = [(2, 2, 10, 10, ''original'')], sol_container_w = 15,
            sol_container_h = 15, solver_name = ''Mathematical''\<rparr> \<and>
   HybridSolver_solve
     \<lparr>backtrack_solver = \<lparr>bt_max_solutions = 10, deadline_passed = (\<lambda>k. False), recursion_room = 1000\<rparr>,
      over_70_percent = False, over_80_percent = True,
      ilp_solver = Some (\<lambda>problem. mk_solution [] problem ''ILP'')\<rparr>
     single_tile_fit
     = Inr \<lparr>tile_positions = [(2, 2, 10, 10, ''original'')], sol_container_w = 15,
            sol_container_h = 15, solver_name = ''Mathematical''\<rparr> \<and>
   HybridSolver_solve
     \<lparr>backtrack_solver = \<lparr>bt_max_solutions = 10, deadline_passed = (\<lambda>k. False), recursion_room = 1000\<rparr>,
      over_70_percent = False, over_80_percent = False,
      ilp_solver = Some (\<lambda>problem. mk_solution [] problem ''ILP'')\<rparr>
     single_tile_fit
     = Inr \<lparr>tile_positions = [(2, 2, 10, 10, ''original'')], sol_container_w = 15,
            sol_container_h = 15, solver_name = ''Hybrid(Mathematical)''\<rparr> \<and>
   HybridSolver_solve
     \<lparr>backtrack_solver = \<lparr>bt_max_solutions = 10, deadline_passed = (\<lambda>k. False), recursion_room = 1000\<rparr>,
      over_70_percent = False, over_80_percent = False, ilp_solver = None\<rparr>
     single_tile_fit
     = Inr \<lparr>tile_positions = [(2, 2, 10, 10, ''original'')], sol_container_w = 15,
            sol_container_h = 15, solver_name = ''Mathematical''\<rparr>"
  unfolding single_tile_fit_def by code_simp

section \<open>Placements of the solvers: apart and inside\<close>

subsection \<open>Lists without overlaps\<close>

lemma tiles_overlap_sym: "tiles_overlap a b = tiles_overlap b a"
  by (cases a; cases b) (auto simp: tiles_overlap_def rectangles_overlap_def)

lemma no_overlaps_append:
  "no_overlaps (xs @ ys) =
     (no_overlaps xs \<and> no_overlaps ys \<and> (\<forall>a\<in>set xs. \<forall>b\<in>set ys. \<not> tiles_overlap a b))"
  by (induction xs) (auto simp: list_all_iff)

lemma no_overlaps_map:
  "distinct xs \<Longrightarrow> (\<And>a b. a \<in> set xs \<Longrightarrow> b \<in> set xs \<Longrightarrow> a \<noteq> b \<Longrightarrow> \<not> tiles_overlap (f a) (f b))
   \<Longrightarrow> no_overlaps (map f xs)"
  by (induction xs) (auto simp: list_all_iff)

lemma no_overlaps_concat:
  "distinct rs \<Longrightarrow> (\<And>r. r \<in> set rs \<Longrightarrow> no_overlaps (g r)) \<Longrightarrow>
   (\<And>r r' a b. r \<in> set rs \<Longrightarrow> r' \<in> set rs \<Longrightarrow> r \<noteq> r' \<Longrightarrow> a \<in> set (g r) \<Longrightarrow> b \<in> set (g r')
      \<Longrightarrow> \<not> tiles_overlap a b)
   \<Longrightarrow> no_overlaps (concat (map g rs))"
proof (induction rs)
  case Nil
  then show ?case by simp
next
  case (Cons r rs)
  have "no_overlaps (concat (map g rs))"
  proof (rule Cons.IH)
    show "distinct rs" using Cons.prems(1) by simp
    show "no_overlaps (g r')" if "r' \<in> set rs" for r'
      using Cons.prems(2)[of r'] that by simp
    show "\<not> tiles_overlap a b"
      if "r1 \<in> set rs" "r2 \<in> set rs" "r1 \<noteq> r2" "a \<in> set (g r1)" "b \<in> set (g r2)"
      for r1 r2 a b
      using Cons.prems(3)[of r1 r2 a b] that by simp
  qed
  moreover have "no_overlaps (g r)" using Cons.prems(2) by simp
  moreover have "\<not> tiles_overlap a b"
    if a: "a \<in> set (g r)" and b: "b \<in> set (concat (map g rs))" for a b
  proof -
    obtain r' where r': "r' \<in> set rs" "b \<in> set (g r')" using b by auto
    then have "r \<noteq> r'" using Cons.prems(1) by auto
    then show ?thesis using Cons.prems(3)[of r r' a b] a r' by simp
  qed
  ultimately show ?case by (simp add: no_overlaps_append)
qed

lemma no_overlaps_nth:
  "no_overlaps ps \<Longrightarrow> i < j \<Longrightarrow> j < length ps \<Longrightarrow> \<not> tiles_overlap (ps ! i) (ps ! j)"
proof (induction ps arbitrary: i j)
  case Nil
  then show ?case by simp
next
  case (Cons p ps)
  show ?case
  proof (cases i)
    case 0
    then obtain j' where "j = Suc j'" "j' < length ps" using Cons.prems by (cases j) auto
    then show ?thesis using Cons.prems(1) 0 by (auto simp: list_all_iff)
  next
    case (Suc i')
    then obtain j' where "j = Suc j'" "i' < j'" "j' < length ps" using Cons.prems by (cases j) auto
    then show ?thesis using Cons.IH[of i' j'] Cons.prems(1) Suc by simp
  qed
qed

subsection \<open>MathematicalSolver\<close>

lemma find_rectangular_arrangements_fitting:
  "a \<in> set (find_rectangular_arrangements problem) \<Longrightarrow> fitting problem a"
  by (auto simp: find_rectangular_arrangements_def fitting_def Let_def split: if_splits)

lemma py_max_key_in: "py_max_key f x xs \<in> set (x # xs)"
  unfolding py_max_key_def
proof (induction xs arbitrary: x)
  case Nil
  then show ?case by simp
next
  case (Cons a xs)
  show ?case
    using Cons.IH[of "if f x < f a then a else x"] by (auto split: if_splits)
qed

lemma grid_tiles_apart:
  assumes "0 < tw" "0 < th" "(r, c) \<noteq> (r', c')"
  shows "\<not> tiles_overlap (sx + c * tw, sy + r * th, tw, th, o1)
                          (sx + c' * tw, sy + r' * th, tw, th, o2)"
proof -
  have step: "a * k + k \<le> b * k" if "a < b" "0 < k" for a b k :: int
  proof -
    have "(a + 1) * k \<le> b * k" using that by (intro mult_right_mono) auto
    then show ?thesis by (simp add: algebra_simps)
  qed
  consider "c < c'" | "c' < c" | "r < r'" | "r' < r" using assms(3) by force
  then show ?thesis
  proof cases
    case 1 then show ?thesis using step[of c c' tw] assms
      by (simp add: tiles_overlap_def rectangles_overlap_def)
  next
    case 2 then show ?thesis using step[of c' c tw] assms
      by (simp add: tiles_overlap_def rectangles_overlap_def)
  next
    case 3 then show ?thesis using step[of r r' th] assms
      by (simp add: tiles_overlap_def rectangles_overlap_def)
  next
    case 4 then show ?thesis using step[of r' r th] assms
      by (simp add: tiles_overlap_def rectangles_overlap_def)
  qed
qed

lemma grid_positions_well_placed:
  assumes "0 < tile_w problem" "0 < tile_h problem" "fitting problem a"
  shows "well_placed problem (grid_positions problem a)"
proof -
  obtain rows cols sx sy total where a: "a = (rows, cols, sx, sy, total)"
    by (cases a) auto
  let ?tw = "tile_w problem" and ?th = "tile_h problem"
  let ?tile = "\<lambda>r c. (sx + c * ?tw, sy + r * ?th, ?tw, ?th, ''original'')"
  have fit: "cols * ?tw \<le> container_w problem" "rows * ?th \<le> container_h problem"
    "sx = (container_w problem - cols * ?tw) div 2" "sy = (container_h problem - rows * ?th) div 2"
    using assms(3) by (simp_all add: fitting_def a)
  have sx: "0 \<le> sx" "sx + cols * ?tw \<le> container_w problem" using fit by auto
  have sy: "0 \<le> sy" "sy + rows * ?th \<le> container_h problem" using fit by auto
  have apart: "no_overlaps (grid_positions problem a)"
    unfolding grid_positions_def a prod.case
  proof (rule no_overlaps_concat)
    show "distinct [0..rows - 1]" by simp
    show "no_overlaps (map (?tile r) [0..cols - 1])" for r
      by (rule no_overlaps_map) (use grid_tiles_apart[OF assms(1,2)] in auto)
    show "\<not> tiles_overlap p q"
      if "r \<noteq> r'" "p \<in> set (map (?tile r) [0..cols - 1])" "q \<in> set (map (?tile r') [0..cols - 1])"
      for r r' p q
      using that grid_tiles_apart[OF assms(1,2), of r _ r'] by auto
  qed
  have inside: "within_container problem (?tile r c)"
    if "0 \<le> r" "r \<le> rows - 1" "0 \<le> c" "c \<le> cols - 1" for r c
  proof -
    have "(c + 1) * ?tw \<le> cols * ?tw" using that assms(1) by (intro mult_right_mono) auto
    moreover have "(r + 1) * ?th \<le> rows * ?th" using that assms(2) by (intro mult_right_mono) auto
    moreover have "0 \<le> c * ?tw" "0 \<le> r * ?th" using that assms by auto
    ultimately show ?thesis
      using sx sy by (simp add: within_container_def algebra_simps)
  qed
  have "list_all (within_container problem) (grid_positions problem a)"
    using inside by (auto simp: grid_positions_def a list_all_iff)
  then show ?thesis using apart by (simp add: well_placed_def)
qed

lemma valid_problem_tile:
  "post_init problem = Inr problem \<Longrightarrow> 0 < tile_w problem \<and> 0 < tile_h problem \<and>
     0 < container_w problem \<and> 0 < container_h problem"
  by (auto simp: post_init_def split: if_splits)

lemma mathematical_solve_well_placed:
  assumes "post_init problem = Inr problem"
  shows "well_placed problem (tile_positions (MathematicalSolver_solve problem))"
proof (cases "find_rectangular_arrangements problem")
  case Nil
  then show ?thesis
    by (simp add: MathematicalSolver_solve_def mk_solution_def well_placed_def)
next
  case (Cons a as)
  have "py_max_key arrangement_total a as \<in> set (find_rectangular_arrangements problem)"
    using py_max_key_in[of arrangement_total a as] Cons by simp
  then have "fitting problem (py_max_key arrangement_total a as)"
    by (rule find_rectangular_arrangements_fitting)
  then show ?thesis
    using valid_problem_tile[OF assms] Cons
    by (simp add: MathematicalSolver_solve_def mk_solution_def grid_positions_well_placed)
qed

lemma set_py_slice_to: "set (py_slice_to xs n) \<subseteq> set xs"
  by (auto simp: py_slice_to_def dest: in_set_takeD)

lemma mathematical_solve_all_optimal_well_placed:
  assumes "post_init problem = Inr problem"
    and "s \<in> set (MathematicalSolver_solve_all_optimal problem m)"
  shows "well_placed problem (tile_positions s)"
proof (cases "find_rectangular_arrangements problem")
  case Nil
  then show ?thesis using assms(2) by (simp add: MathematicalSolver_solve_all_optimal_def)
next
  case (Cons a as)
  let ?optimal = "filter (\<lambda>arr. arrangement_total arr
                      = py_max (arrangement_total a) (map arrangement_total as)) (a # as)"
  have "s \<in> (\<lambda>arr. mk_solution (grid_positions problem arr) problem ''Mathematical'')
              ` set (py_slice_to ?optimal m)"
    using assms(2) Cons by (simp add: MathematicalSolver_solve_all_optimal_def Let_def)
  then obtain arr where in_slice: "arr \<in> set (py_slice_to ?optimal m)"
    and s: "s = mk_solution (grid_positions problem arr) problem ''Mathematical''"
    by blast
  have "arr \<in> set ?optimal"
    using set_py_slice_to[of ?optimal m] in_slice by (rule subsetD)
  then have arr: "arr \<in> set (a # as)"
    unfolding set_filter by (rule CollectE) (rule conjunct1)
  have "fitting problem arr"
    using arr Cons find_rectangular_arrangements_fitting[of arr problem] by simp
  then show ?thesis
    using valid_problem_tile[OF assms(1)] s
    by (simp add: mk_solution_def grid_positions_well_placed)
qed

subsection \<open>GreedySolver\<close>

lemma fold_insert_column:
  "fold (\<lambda>fill_y occ. insert (fx, fill_y) occ) ys occ = occ \<union> Pair fx ` set ys"
  by (induction ys arbitrary: occ) auto

lemma mark_occupied_eq:
  "mark_occupied x y w h occupied = occupied \<union> {x..x + w - 1} \<times> {y..y + h - 1}"
proof -
  have "fold (\<lambda>fill_x occ. occ \<union> Pair fill_x ` Y) xs occ = occ \<union> set xs \<times> Y"
    for xs :: "int list" and Y :: "int set" and occ
    by (induction xs arbitrary: occ) auto
  then show ?thesis
    by (simp add: mark_occupied_def fold_insert_column)
qed

lemma can_place_at_iff:
  "can_place_at x y w h occupied = ({x..x + w - 1} \<times> {y..y + h - 1} \<inter> occupied = {})"
  by (auto simp: can_place_at_def list_all_iff disjoint_iff)

lemma overlap_common_cell:
  assumes "tiles_overlap (x1, y1, w1, h1, o1) (x2, y2, w2, h2, o2)"
    and "0 < w1" "0 < h1" "0 < w2" "0 < h2"
  shows "(max x1 x2, max y1 y2) \<in> tile_cells (x1, y1, w1, h1, o1) \<inter> tile_cells (x2, y2, w2, h2, o2)"
proof -
  have "x1 < x2 + w2" "x2 < x1 + w1" "y1 < y2 + h2" "y2 < y1 + h1"
    using assms(1) by (simp_all add: tiles_overlap_def rectangles_overlap_def)
  then show ?thesis
    using assms(2-) by (simp add: tile_cells_def)
qed

lemma greedy_step:
  assumes inv: "greedy_inv problem placed occupied"
    and free: "can_place_at x y (tile_w problem) (tile_h problem) occupied"
    and pos: "0 < tile_w problem" "0 < tile_h problem"
    and inside: "0 \<le> x" "0 \<le> y" "x + tile_w problem \<le> container_w problem"
      "y + tile_h problem \<le> container_h problem"
  shows "greedy_inv problem (placed @ [(x, y, tile_w problem, tile_h problem, orientation)])
           (mark_occupied x y (tile_w problem) (tile_h problem) occupied)"
proof -
  let ?t = "(x, y, tile_w problem, tile_h problem, orientation)"
  have cells: "tile_cells ?t \<inter> occupied = {}"
    using free by (simp add: can_place_at_iff tile_cells_def)
  have apart: "\<not> tiles_overlap a ?t" if a: "a \<in> set placed" for a
  proof
    assume ov: "tiles_overlap a ?t"
    obtain x1 y1 o1 where a_eq: "a = (x1, y1, tile_w problem, tile_h problem, o1)"
      using inv a by (auto simp: greedy_inv_def)
    have "(max x1 x, max y1 y) \<in> tile_cells a \<inter> tile_cells ?t"
      using overlap_common_cell[OF ov[unfolded a_eq] pos pos] by (simp add: a_eq)
    moreover have "tile_cells a \<subseteq> occupied" using inv a by (auto simp: greedy_inv_def)
    ultimately show False using cells by auto
  qed
  have "no_overlaps (placed @ [?t])"
    using inv apart by (auto simp: no_overlaps_append greedy_inv_def well_placed_def)
  moreover have "list_all (within_container problem) (placed @ [?t])"
    using inv inside by (auto simp: greedy_inv_def well_placed_def within_container_def)
  moreover have "tile_cells t \<subseteq> mark_occupied x y (tile_w problem) (tile_h problem) occupied"
    if t: "t \<in> set (placed @ [?t])" for t
  proof (cases "t = ?t")
    case True
    then show ?thesis by (auto simp: mark_occupied_eq tile_cells_def)
  next
    case False
    then have "tile_cells t \<subseteq> occupied" using t inv by (auto simp: greedy_inv_def)
    then show ?thesis by (auto simp: mark_occupied_eq)
  qed
  moreover have "\<exists>x' y' o'. t = (x', y', tile_w problem, tile_h problem, o')"
    if "t \<in> set (placed @ [?t])" for t
    using that inv by (auto simp: greedy_inv_def)
  ultimately show ?thesis
    unfolding greedy_inv_def well_placed_def by (intro conjI ballI) assumption+
qed

lemma find_Some_holds: "List.find P xs = Some x \<Longrightarrow> P x \<and> x \<in> set xs"
  by (induction xs) (auto split: if_splits)

lemma find_best_bottom_left_position_Some:
  assumes "find_best_bottom_left_position problem occupied = Some (x, y, w, h)"
  shows "w = tile_w problem \<and> h = tile_h problem \<and>
         can_place_at x y (tile_w problem) (tile_h problem) occupied \<and>
         0 \<le> x \<and> x \<le> container_w problem - tile_w problem \<and>
         0 \<le> y \<and> y \<le> container_h problem - tile_h problem"
proof -
  let ?P = "\<lambda>(y, x). can_place_at x y (tile_w problem) (tile_h problem) occupied"
  let ?cands = "concat (map (\<lambda>y. map (\<lambda>x. (y, x)) [0 .. container_w problem - tile_w problem])
                     [0 .. container_h problem - tile_h problem])"
  obtain yx where f: "List.find ?P ?cands = Some yx"
    and r: "(x, y, w, h) = (case yx of (y, x) \<Rightarrow> (x, y, tile_w problem, tile_h problem))"
    using assms by (auto simp: find_best_bottom_left_position_def)
  have "?P yx" "yx \<in> set ?cands" using find_Some_holds[OF f] by auto
  then show ?thesis using r by (cases yx) auto
qed

lemma bottom_left_loop_inv:
  assumes "0 < tile_w problem" "0 < tile_h problem" "greedy_inv problem placed occupied"
  shows "well_placed problem (bottom_left_loop n problem placed occupied)"
  using assms(3)
proof (induction n arbitrary: placed occupied)
  case 0
  then show ?case by (simp add: greedy_inv_def)
next
  case (Suc n)
  show ?case
  proof (cases "find_best_bottom_left_position problem occupied")
    case None
    then show ?thesis using Suc.prems by (simp add: greedy_inv_def)
  next
    case (Some pos)
    obtain x y w h where pos: "pos = (x, y, w, h)" by (cases pos) auto
    note f = find_best_bottom_left_position_Some[OF Some[unfolded pos]]
    have "greedy_inv problem (placed @ [(x, y, tile_w problem, tile_h problem, ''original'')])
            (mark_occupied x y (tile_w problem) (tile_h problem) occupied)"
      by (rule greedy_step[OF Suc.prems]) (use f assms(1,2) in auto)
    from Suc.IH[OF this] show ?thesis using Some pos f by simp
  qed
qed

lemma greedy_inv_empty: "greedy_inv problem [] {}"
  by (simp add: greedy_inv_def well_placed_def)

lemma center_out_loop_inv:
  assumes "0 < tile_w problem" "0 < tile_h problem"
    and "greedy_inv problem placed occupied"
    and "\<forall>(d, x, y)\<in>set cands. 0 \<le> x \<and> 0 \<le> y \<and> x + tile_w problem \<le> container_w problem \<and>
           y + tile_h problem \<le> container_h problem"
  shows "well_placed problem (center_out_loop cands problem limit placed occupied)"
  using assms(3,4)
proof (induction cands arbitrary: placed occupied)
  case Nil
  then show ?case by (simp add: greedy_inv_def)
next
  case (Cons cand cands)
  obtain d x y where cand: "cand = (d, x, y)" by (cases cand) auto
  have rest: "\<forall>(d, x, y)\<in>set cands. 0 \<le> x \<and> 0 \<le> y \<and> x + tile_w problem \<le> container_w problem \<and>
           y + tile_h problem \<le> container_h problem"
    using Cons.prems(2) by simp
  have here: "0 \<le> x" "0 \<le> y" "x + tile_w problem \<le> container_w problem"
    "y + tile_h problem \<le> container_h problem"
    using Cons.prems(2) by (auto simp: cand)
  show ?case
  proof (cases "int (length placed) \<ge> limit")
    case True
    then show ?thesis using Cons.prems(1) by (simp add: cand greedy_inv_def)
  next
    case False
    show ?thesis
    proof (cases "can_place_at x y (tile_w problem) (tile_h problem) occupied")
      case True
      have "greedy_inv problem (placed @ [(x, y, tile_w problem, tile_h problem, ''original'')])
              (mark_occupied x y (tile_w problem) (tile_h problem) occupied)"
        by (rule greedy_step[OF Cons.prems(1) True assms(1,2) here])
      from Cons.IH[OF this rest] show ?thesis using False True by (simp add: cand)
    next
      case no: False
      from Cons.IH[OF Cons.prems(1) rest] show ?thesis using False no by (simp add: cand)
    qed
  qed
qed

lemma center_out_positions_inside:
  "(d, x, y) \<in> set (center_out_positions problem) \<Longrightarrow>
   0 \<le> x \<and> 0 \<le> y \<and> x + tile_w problem \<le> container_w problem \<and>
   y + tile_h problem \<le> container_h problem"
  by (auto simp: center_out_positions_def Let_def split: if_splits)

lemma greedy_solve_well_placed:
  assumes "post_init problem = Inr problem" "GreedySolver_solve strategy problem = Inr s"
  shows "well_placed problem (tile_positions s)"
proof -
  note pos = valid_problem_tile[OF assms(1)]
  have bl: "well_placed problem (solve_bottom_left problem)"
    unfolding solve_bottom_left_def
    by (rule bottom_left_loop_inv) (use pos greedy_inv_empty in auto)
  have co: "well_placed problem (solve_center_out problem)"
    unfolding solve_center_out_def
    by (rule center_out_loop_inv) (use pos greedy_inv_empty center_out_positions_inside in auto)
  show ?thesis
    using assms(2) bl co
    by (auto simp: GreedySolver_solve_def mk_solution_def split: if_splits)
qed

subsection \<open>BacktrackSolver: the grid\<close>

lemma range_nat: "[r..<nat (int r + h)] = [r..<r + nat h]"
  by (cases "0 \<le> h") (auto simp: nat_add_distrib)

lemma fill_row_length: "length (fold (\<lambda>j row. row[j := v]) js row) = length row"
  by (induction js arbitrary: row) auto

lemma fill_row_nth:
  "j < length row \<Longrightarrow>
   fold (\<lambda>j row. row[j := v]) js row ! j = (if j \<in> set js then v else row ! j)"
  by (induction js arbitrary: row) (auto simp: fill_row_length nth_list_update)

lemma fill_in_row:
  "i < length g \<Longrightarrow>
   fold (\<lambda>j g'. g'[i := (g' ! i)[j := v]]) js g = g[i := fold (\<lambda>j row. row[j := v]) js (g ! i)]"
  by (induction js arbitrary: g) auto

lemma fill_rows_length: "length (fold (\<lambda>i g'. g'[i := F (g' ! i)]) is g) = length g"
  by (induction "is" arbitrary: g) auto

lemma fill_rows_nth:
  "i < length g \<Longrightarrow> distinct is \<Longrightarrow>
   fold (\<lambda>i g'. g'[i := F (g' ! i)]) is g ! i = (if i \<in> set is then F (g ! i) else g ! i)"
proof (induction "is" arbitrary: g)
  case Nil
  then show ?case by simp
next
  case (Cons a "is")
  show ?case
  proof (cases "a = i")
    case True
    then show ?thesis
      using Cons.prems Cons.IH[of "g[a := F (g ! a)]"] by auto
  next
    case False
    then show ?thesis
      using Cons.prems Cons.IH[of "g[a := F (g ! a)]"] by auto
  qed
qed

lemma fill_cells_rows:
  assumes "r + nat h \<le> length g"
  shows "fill_cells g r c h w v
           = fold (\<lambda>i g'. g'[i := fold (\<lambda>j row. row[j := v]) [c..<c + nat w] (g' ! i)])
               [r..<r + nat h] g"
proof -
  have "fold (\<lambda>i g'. fold (\<lambda>j g''. g''[i := (g'' ! i)[j := v]]) js g') is g
        = fold (\<lambda>i g'. g'[i := fold (\<lambda>j row. row[j := v]) js (g' ! i)]) is g"
    if "\<forall>i\<in>set is. i < length g" for "is" js and g :: grid
    using that
  proof (induction "is" arbitrary: g)
    case Nil
    then show ?case by simp
  next
    case (Cons a "is")
    then show ?case by (simp add: fill_in_row)
  qed
  then show ?thesis
    using assms by (simp add: fill_cells_def range_nat)
qed

lemma fill_cells_length:
  "r + nat h \<le> length g \<Longrightarrow> length (fill_cells g r c h w v) = length g"
  by (simp add: fill_cells_rows fill_rows_length)

lemma fill_cells_row:
  assumes "r + nat h \<le> length g" "i < length g"
  shows "fill_cells g r c h w v ! i
           = (if r \<le> i \<and> i < r + nat h
              then fold (\<lambda>j row. row[j := v]) [c..<c + nat w] (g ! i) else g ! i)"
  using assms by (simp add: fill_cells_rows fill_rows_nth)

lemma fill_cells_row_length:
  assumes "r + nat h \<le> length g" "i < length g"
  shows "length (fill_cells g r c h w v ! i) = length (g ! i)"
  using assms by (simp add: fill_cells_row fill_row_length)

lemma fill_cells_cell:
  assumes "r + nat h \<le> length g" "i < length g" "j < length (g ! i)"
  shows "fill_cells g r c h w v ! i ! j
           = (if (i, j) \<in> box r c (nat h) (nat w) then v else g ! i ! j)"
  using assms by (simp add: fill_cells_row fill_row_nth box_def)

lemma rectangular_fill_cells:
  "rectangular H W g \<Longrightarrow> r + nat h \<le> H \<Longrightarrow> rectangular H W (fill_cells g r c h w v)"
  by (simp add: rectangular_def fill_cells_length fill_cells_row_length)

lemma grid_width_rectangular: "rectangular H W g \<Longrightarrow> 0 < H \<Longrightarrow> grid_width g = W"
  by (simp add: rectangular_def grid_width_def)

lemma can_place_iff:
  assumes "rectangular H W g" "0 < H"
  shows "can_place g r c h w =
           (int r + h \<le> int H \<and> int c + w \<le> int W \<and>
            (\<forall>(i, j)\<in>box r c (nat h) (nat w). g ! i ! j = 0))"
  using assms
  by (auto simp: can_place_def grid_width_rectangular list_all_iff box_def range_nat
      rectangular_def)

lemma grid_eqI:
  assumes "rectangular H W g" "rectangular H W g'"
    and "\<And>i j. i < H \<Longrightarrow> j < W \<Longrightarrow> g ! i ! j = g' ! i ! j"
  shows "g = g'"
proof (rule nth_equalityI)
  show "length g = length g'" using assms(1,2) by (simp add: rectangular_def)
  show "g ! i = g' ! i" if "i < length g" for i
  proof (rule nth_equalityI)
    show "length (g ! i) = length (g' ! i)"
      using assms(1,2) that by (simp add: rectangular_def)
    show "g ! i ! j = g' ! i ! j" if "j < length (g ! i)" for j
      using assms that \<open>i < length g\<close> by (simp add: rectangular_def)
  qed
qed

lemma remove_place:
  assumes rect: "rectangular H W g" and H: "0 < H" and free: "can_place g r c h w"
    and pos: "0 < h" "0 < w"
  shows "remove_tile (place_tile g r c h w k) r c h w = g"
proof (rule grid_eqI[OF _ rect])
  have fits: "r + nat h \<le> H" "c + nat w \<le> W"
    and zero: "\<And>i j. (i, j) \<in> box r c (nat h) (nat w) \<Longrightarrow> g ! i ! j = 0"
    using free pos by (auto simp: can_place_iff[OF rect H])
  have len: "length g = H" "\<And>i. i < H \<Longrightarrow> length (g ! i) = W"
    using rect by (simp_all add: rectangular_def)
  have r1: "rectangular H W (place_tile g r c h w k)"
    unfolding place_tile_def using rect fits(1) by (rule rectangular_fill_cells)
  show "rectangular H W (remove_tile (place_tile g r c h w k) r c h w)"
    unfolding remove_tile_def using r1 fits(1) by (rule rectangular_fill_cells)
  show "remove_tile (place_tile g r c h w k) r c h w ! i ! j = g ! i ! j"
    if "i < H" "j < W" for i j
  proof -
    have len1: "length (place_tile g r c h w k) = H" "length (place_tile g r c h w k ! i) = W"
      using r1 that by (simp_all add: rectangular_def)
    have "remove_tile (place_tile g r c h w k) r c h w ! i ! j
            = (if (i, j) \<in> box r c (nat h) (nat w) then 0 else place_tile g r c h w k ! i ! j)"
      unfolding remove_tile_def using fits that len1 by (simp add: fill_cells_cell)
    also have "place_tile g r c h w k ! i ! j
            = (if (i, j) \<in> box r c (nat h) (nat w) then k else g ! i ! j)"
      unfolding place_tile_def using fits that len by (simp add: fill_cells_cell)
    finally show ?thesis using zero by auto
  qed
qed

subsection \<open>BacktrackSolver: tiles on the grid\<close>

lemma tiled_empty_grid:
  "tiled (nat (container_h problem)) (nat (container_w problem)) (empty_grid problem) 1"
  by (auto simp: tiled_def rectangular_def empty_grid_def label_region_def)

lemma place_tiled:
  assumes t: "tiled H W g k" and H: "0 < H" and free: "can_place g r c h w"
    and pos: "0 < h" "0 < w" and k: "1 \<le> k"
  shows "tiled H W (place_tile g r c h w k) (k + 1)"
proof -
  let ?g = "place_tile g r c h w k"
  have rect: "rectangular H W g" using t by (simp add: tiled_def)
  have fits: "r + nat h \<le> H" "c + nat w \<le> W"
    and zero: "\<And>i j. (i, j) \<in> box r c (nat h) (nat w) \<Longrightarrow> g ! i ! j = 0"
    using free pos by (auto simp: can_place_iff[OF rect H])
  have len: "length g = H" "\<And>i. i < H \<Longrightarrow> length (g ! i) = W"
    using rect by (simp_all add: rectangular_def)
  have cell: "?g ! i ! j = (if (i, j) \<in> box r c (nat h) (nat w) then k else g ! i ! j)"
    if "i < H" "j < W" for i j
    unfolding place_tile_def using fits that len by (simp add: fill_cells_cell)
  have inside: "i < H \<and> j < W" if "(i, j) \<in> box r c (nat h) (nat w)" for i j
    using that fits by (auto simp: box_def)
  have below: "g ! i ! j < k" if "i < H" "j < W" for i j
    using t that by (simp add: tiled_def)
  have new: "label_region H W ?g k = box r c (nat h) (nat w)"
  proof (intro equalityI subsetI)
    fix p assume p: "p \<in> label_region H W ?g k"
    obtain i j where ij: "p = (i, j)" by (cases p)
    have b: "i < H" "j < W" "?g ! i ! j = k" using p by (simp_all add: label_region_def ij)
    show "p \<in> box r c (nat h) (nat w)"
    proof (rule ccontr)
      assume "p \<notin> box r c (nat h) (nat w)"
      then have "?g ! i ! j = g ! i ! j" using cell[OF b(1,2)] by (simp add: ij)
      then show False using below[OF b(1,2)] b(3) by simp
    qed
  next
    fix p assume p: "p \<in> box r c (nat h) (nat w)"
    obtain i j where ij: "p = (i, j)" by (cases p)
    have b: "i < H" "j < W" using inside p by (simp_all add: ij)
    show "p \<in> label_region H W ?g k"
      using cell[OF b] p b by (simp add: label_region_def ij)
  qed
  have old: "label_region H W ?g v = label_region H W g v" if v: "v \<noteq> 0" "v \<noteq> k" for v
  proof (intro equalityI subsetI)
    fix p assume p: "p \<in> label_region H W ?g v"
    obtain i j where ij: "p = (i, j)" by (cases p)
    have b: "i < H" "j < W" "?g ! i ! j = v" using p by (simp_all add: label_region_def ij)
    have "(i, j) \<notin> box r c (nat h) (nat w)"
      using cell[OF b(1,2)] b(3) v(2) by auto
    then have "g ! i ! j = v" using cell[OF b(1,2)] b(3) by simp
    then show "p \<in> label_region H W g v" using b by (simp add: label_region_def ij)
  next
    fix p assume p: "p \<in> label_region H W g v"
    obtain i j where ij: "p = (i, j)" by (cases p)
    have b: "i < H" "j < W" "g ! i ! j = v" using p by (simp_all add: label_region_def ij)
    have "(i, j) \<notin> box r c (nat h) (nat w)"
      using zero[of i j] b(3) v(1) by auto
    then have "?g ! i ! j = v" using cell[OF b(1,2)] b(3) by simp
    then show "p \<in> label_region H W ?g v" using b by (simp add: label_region_def ij)
  qed
  have "rectangular H W ?g"
    unfolding place_tile_def using rect fits(1) by (rule rectangular_fill_cells)
  moreover have "?g ! i ! j < k + 1" if "i < H" "j < W" for i j
    using cell[OF that] below[OF that] by auto
  moreover have "\<exists>b. is_box_of H W ?g v b"
    if v0: "v \<noteq> 0" and ne: "label_region H W ?g v \<noteq> {}" for v
  proof (cases "v = k")
    case True
    then have "is_box_of H W ?g v (r, c, nat h, nat w)"
      using new fits pos by (simp add: is_box_of_def)
    then show ?thesis ..
  next
    case False
    have "label_region H W g v \<noteq> {}" using ne old[OF v0 False] by simp
    then have "\<exists>b. is_box_of H W g v b" using t v0 by (simp add: tiled_def)
    then obtain b where "is_box_of H W g v b" ..
    then have "is_box_of H W ?g v b"
      using old[OF v0 False] by (simp add: is_box_of_def)
    then show ?thesis ..
  qed
  ultimately show ?thesis by (simp add: tiled_def)
qed

subsection \<open>BacktrackSolver: reading the tiles back\<close>

lemma expand_width_box:
  assumes rect: "rectangular H W g" and b: "is_box_of H W g v (r, c, h, w)"
    and n: "1 \<le> n" "n \<le> w"
  shows "expand_width g r c v W n = w"
  using n
proof (induction "w - n" arbitrary: n)
  case 0
  then have n: "n = w" by simp
  have reg: "label_region H W g v = box r c h w" and bounds: "0 < h" "r + h \<le> H" "c + w \<le> W"
    using b by (simp_all add: is_box_of_def)
  have "\<not> (c + w < W \<and> g ! r ! (c + w) = v)"
  proof
    assume a: "c + w < W \<and> g ! r ! (c + w) = v"
    then have "(r, c + w) \<in> label_region H W g v" using bounds by (simp add: label_region_def)
    then show False unfolding reg by (simp add: box_def)
  qed
  then show ?case by (subst expand_width.simps) (auto simp: n)
next
  case (Suc d)
  have reg: "label_region H W g v = box r c h w" and bounds: "0 < h" "r + h \<le> H" "c + w \<le> W"
    using b by (simp_all add: is_box_of_def)
  have "(r, c + n) \<in> box r c h w" using Suc.hyps(2) bounds by (simp add: box_def)
  then have "(r, c + n) \<in> label_region H W g v" by (simp add: reg)
  then have step: "c + n < W \<and> g ! r ! (c + n) = v" by (simp add: label_region_def)
  have "expand_width g r c v W (n + 1) = w"
    using Suc.hyps Suc.prems by (intro Suc.hyps(1)) auto
  then show ?case using step by (subst expand_width.simps) simp
qed

lemma expand_height_box:
  assumes rect: "rectangular H W g" and b: "is_box_of H W g v (r, c, h, w)"
    and n: "1 \<le> n" "n \<le> h"
  shows "expand_height g r c v H n = h"
  using n
proof (induction "h - n" arbitrary: n)
  case 0
  then have n: "n = h" by simp
  have reg: "label_region H W g v = box r c h w" and bounds: "0 < w" "r + h \<le> H" "c + w \<le> W"
    using b by (simp_all add: is_box_of_def)
  have "\<not> (r + h < H \<and> g ! (r + h) ! c = v)"
  proof
    assume a: "r + h < H \<and> g ! (r + h) ! c = v"
    then have "(r + h, c) \<in> label_region H W g v" using bounds by (simp add: label_region_def)
    then show False unfolding reg by (simp add: box_def)
  qed
  then show ?case by (subst expand_height.simps) (auto simp: n)
next
  case (Suc d)
  have reg: "label_region H W g v = box r c h w" and bounds: "0 < w" "r + h \<le> H" "c + w \<le> W"
    using b by (simp_all add: is_box_of_def)
  have "(r + n, c) \<in> box r c h w" using Suc.hyps(2) bounds by (simp add: box_def)
  then have "(r + n, c) \<in> label_region H W g v" by (simp add: reg)
  then have step: "r + n < H \<and> g ! (r + n) ! c = v" by (simp add: label_region_def)
  have "expand_height g r c v H (n + 1) = h"
    using Suc.hyps Suc.prems by (intro Suc.hyps(1)) auto
  then show ?case using step by (subst expand_height.simps) simp
qed

lemma passed_cells_Suc: "r < H \<Longrightarrow> c < W \<Longrightarrow> passed_cells H W r (Suc c) = insert (r, c) (passed_cells H W r c)"
  by (auto simp: passed_cells_def)

lemma passed_cells_next_row: "passed_cells H W (Suc r) 0 = passed_cells H W r W"
  by (auto simp: passed_cells_def)

lemma scan_cell_inv:
  assumes t: "tiled H W g k" and inv: "scan_inv H W g tiles (passed_cells H W r c)"
    and rc: "r < H" "c < W"
  shows "scan_inv H W g (scan_cell g problem H W r c tiles) (passed_cells H W r (Suc c))"
proof (cases "g ! r ! c \<noteq> 0 \<and> map_of tiles (g ! r ! c) = None")
  case False
  then have same: "scan_cell g problem H W r c tiles = tiles"
    by (auto simp: scan_cell_def Let_def)
  have "g ! r ! c \<noteq> 0 \<longrightarrow> g ! r ! c \<in> fst ` set tiles"
    using False by (auto simp: map_of_eq_None_iff)
  then show ?thesis
    using inv by (auto simp: same scan_inv_def passed_cells_Suc[OF rc])
next
  case True
  define v where "v = g ! r ! c"
  have v: "v \<noteq> 0" "v \<notin> fst ` set tiles"
    using True by (auto simp: v_def map_of_eq_None_iff)
  have rect: "rectangular H W g" using t by (simp add: tiled_def)
  have here: "(r, c) \<in> label_region H W g v" using rc by (simp add: label_region_def v_def)
  then obtain b where b: "is_box_of H W g v b" using t v(1) by (auto simp: tiled_def)
  obtain r0 c0 h w where b_eq: "b = (r0, c0, h, w)" by (cases b) auto
  have reg: "label_region H W g v = box r0 c0 h w" and bounds: "0 < h" "0 < w" "r0 + h \<le> H" "c0 + w \<le> W"
    using b by (simp_all add: is_box_of_def b_eq)
  have in_box: "r0 \<le> r" "r < r0 + h" "c0 \<le> c" "c < c0 + w"
    using here unfolding reg by (simp_all add: box_def)
  have corner: "(r0, c0) \<in> label_region H W g v"
    unfolding reg using bounds by (simp add: box_def)
  have "(r0, c0) \<notin> passed_cells H W r c"
  proof
    assume "(r0, c0) \<in> passed_cells H W r c"
    moreover have "g ! r0 ! c0 = v" using corner by (simp add: label_region_def)
    ultimately have "v \<in> fst ` set tiles" using inv v(1) by (auto simp: scan_inv_def)
    then show False using v(2) by simp
  qed
  then have at_corner: "r0 = r" "c0 = c"
    using in_box corner by (auto simp: passed_cells_def label_region_def)
  have bx: "is_box_of H W g v (r, c, h, w)" using b by (simp add: b_eq at_corner)
  have ew: "expand_width g r c v W (Suc 0) = w"
    using expand_width_box[OF rect bx, of 1] bounds by simp
  have eh: "expand_height g r c v H (Suc 0) = h"
    using expand_height_box[OF rect bx, of 1] bounds by simp
  obtain orientation where new:
    "scan_cell g problem H W r c tiles = tiles @ [(v, (int c, int r, int w, int h, orientation))]"
    using True by (simp add: scan_cell_def Let_def v_def[symmetric] ew eh)
  have "entry_ok H W g (v, (int c, int r, int w, int h, orientation))"
    using bx v(1) by (auto simp: entry_ok_def)
  then show ?thesis
    using inv v by (auto simp: new scan_inv_def passed_cells_Suc[OF rc] v_def)
qed

lemma scan_row_inv:
  assumes t: "tiled H W g k" and r: "r < H" and n: "n \<le> W"
    and inv: "scan_inv H W g tiles (passed_cells H W r 0)"
  shows "scan_inv H W g (fold (\<lambda>c tiles'. scan_cell g problem H W r c tiles') [0..<n] tiles)
           (passed_cells H W r n)"
  using n
proof (induction n)
  case 0
  then show ?case using inv by simp
next
  case (Suc n)
  then have "scan_inv H W g (fold (\<lambda>c tiles'. scan_cell g problem H W r c tiles') [0..<n] tiles)
               (passed_cells H W r n)" by simp
  from scan_cell_inv[OF t this r] Suc.prems show ?case by simp
qed

lemma scan_rows_inv:
  assumes t: "tiled H W g k" and m: "m \<le> H"
  shows "scan_inv H W g
           (fold (\<lambda>r tiles'. fold (\<lambda>c tiles''. scan_cell g problem H W r c tiles'') [0..<W] tiles')
              [0..<m] [])
           (passed_cells H W m 0)"
  using m
proof (induction m)
  case 0
  then show ?case by (simp add: scan_inv_def passed_cells_def)
next
  case (Suc m)
  then have "scan_inv H W g
           (fold (\<lambda>r tiles'. fold (\<lambda>c tiles''. scan_cell g problem H W r c tiles'') [0..<W] tiles')
              [0..<m] [])
           (passed_cells H W m 0)" by simp
  from scan_row_inv[OF t _ _ this, of W] Suc.prems show ?case
    by (simp add: passed_cells_next_row)
qed

lemma entries_apart:
  assumes a: "entry_ok H W g (va, pa)" and b: "entry_ok H W g (vb, pb)" and ne: "va \<noteq> vb"
  shows "\<not> tiles_overlap pa pb"
proof
  assume ov: "tiles_overlap pa pb"
  obtain r1 c1 h1 w1 o1 where pa: "pa = (int c1, int r1, int w1, int h1, o1)"
    and b1: "is_box_of H W g va (r1, c1, h1, w1)"
    using a by (cases pa) (auto simp: entry_ok_def)
  obtain r2 c2 h2 w2 o2 where pb: "pb = (int c2, int r2, int w2, int h2, o2)"
    and b2: "is_box_of H W g vb (r2, c2, h2, w2)"
    using b by (cases pb) (auto simp: entry_ok_def)
  have reg: "label_region H W g va = box r1 c1 h1 w1" "label_region H W g vb = box r2 c2 h2 w2"
    and pos: "0 < h1" "0 < w1" "0 < h2" "0 < w2"
    using b1 b2 by (simp_all add: is_box_of_def)
  have lt: "c1 < c2 + w2" "c2 < c1 + w1" "r1 < r2 + h2" "r2 < r1 + h1"
    using ov by (simp_all add: pa pb tiles_overlap_def rectangles_overlap_def)
  have "(max r1 r2, max c1 c2) \<in> box r1 c1 h1 w1" "(max r1 r2, max c1 c2) \<in> box r2 c2 h2 w2"
    using lt pos by (simp_all add: box_def)
  then have "(max r1 r2, max c1 c2) \<in> label_region H W g va"
    "(max r1 r2, max c1 c2) \<in> label_region H W g vb"
    by (simp_all add: reg)
  then show False using ne by (simp add: label_region_def)
qed

lemma entry_within:
  assumes e: "entry_ok H W g (v, p)"
    and dims: "H = nat (container_h problem)" "W = nat (container_w problem)"
      "0 < container_h problem" "0 < container_w problem"
  shows "within_container problem p"
proof -
  obtain r c h w orientation where p: "p = (int c, int r, int w, int h, orientation)"
    and b: "is_box_of H W g v (r, c, h, w)"
    using e by (cases p) (auto simp: entry_ok_def)
  have "r + h \<le> H" "c + w \<le> W" using b by (simp_all add: is_box_of_def)
  then have "int r + int h \<le> container_h problem" "int c + int w \<le> container_w problem"
    using dims by linarith+
  then show ?thesis by (simp add: within_container_def p)
qed

lemma dict_lookup:
  assumes "distinct (map fst tiles)" "tid \<in> set (map fst tiles)"
  shows "(tid, the (map_of tiles tid)) \<in> set tiles"
proof -
  obtain p where "map_of tiles tid = Some p"
    using assms(2) by (cases "map_of tiles tid") (auto simp: map_of_eq_None_iff)
  then show ?thesis using map_of_SomeD by fastforce
qed

lemma extract_solution_rows:
  "g \<noteq> [] \<Longrightarrow>
   extract_solution g problem =
     Inr (map (\<lambda>tid. the (map_of
                (fold (\<lambda>r tiles'. fold (\<lambda>c tiles''. scan_cell g problem (length g) (length (g ! 0)) r c tiles'')
                                     [0..<length (g ! 0)] tiles')
                   [0..<length g] []) tid))
            (sort (map fst
                (fold (\<lambda>r tiles'. fold (\<lambda>c tiles''. scan_cell g problem (length g) (length (g ! 0)) r c tiles'')
                                     [0..<length (g ! 0)] tiles')
                   [0..<length g] []))))"
  by (cases g) (simp_all add: extract_solution_def Let_def del: upt_Suc)

lemma extract_solution_well_placed:
  assumes t: "tiled H W g k"
    and dims: "H = nat (container_h problem)" "W = nat (container_w problem)"
      "0 < container_h problem" "0 < container_w problem"
    and ex: "extract_solution g problem = Inr sol"
  shows "well_placed problem sol"
proof -
  have rect: "rectangular H W g" using t by (simp add: tiled_def)
  have H: "0 < H" using dims by simp
  have len: "length g = H" "length (g ! 0) = W" and ne: "g \<noteq> []"
    using rect H by (auto simp: rectangular_def)
  define tiles where
    "tiles = fold (\<lambda>r tiles'. fold (\<lambda>c tiles''. scan_cell g problem H W r c tiles'') [0..<W] tiles')
               [0..<H] []"
  have sol: "sol = map (\<lambda>tid. the (map_of tiles tid)) (sort (map fst tiles))"
    using ex unfolding extract_solution_rows[OF ne] len tiles_def by simp
  have inv: "scan_inv H W g tiles (passed_cells H W H 0)"
    unfolding tiles_def by (rule scan_rows_inv[OF t]) simp
  have dist: "distinct (map fst tiles)" and ok: "\<And>e. e \<in> set tiles \<Longrightarrow> entry_ok H W g e"
    using inv by (simp_all add: scan_inv_def)
  have entry: "entry_ok H W g (tid, the (map_of tiles tid))" if "tid \<in> set (map fst tiles)" for tid
    using ok dict_lookup[OF dist that] by blast
  have "no_overlaps sol"
    unfolding sol
  proof (rule no_overlaps_map)
    show "distinct (sort (map fst tiles))" using dist by simp
    show "\<not> tiles_overlap (the (map_of tiles a)) (the (map_of tiles b))"
      if "a \<in> set (sort (map fst tiles))" "b \<in> set (sort (map fst tiles))" "a \<noteq> b" for a b
      using entries_apart[OF entry[of a] entry[of b]] that by simp
  qed
  moreover have "list_all (within_container problem) sol"
    unfolding sol list_all_iff
  proof
    fix p assume "p \<in> set (map (\<lambda>tid. the (map_of tiles tid)) (sort (map fst tiles)))"
    then obtain tid where "tid \<in> set (map fst tiles)" "p = the (map_of tiles tid)" by auto
    then show "within_container problem p"
      using entry_within[OF entry[of tid] dims] by simp
  qed
  ultimately show ?thesis by (simp add: well_placed_def)
qed

subsection \<open>BacktrackSolver: the search\<close>

lemma record_solution_ok:
  assumes "tiled H W (grid_of st) k"
    and "H = nat (container_h problem)" "W = nat (container_w problem)"
      "0 < container_h problem" "0 < container_w problem"
    and "recorded_ok problem st"
    and "record_solution problem st = Inr st'"
  shows "grid_of st' = grid_of st \<and> recorded_ok problem st'"
proof -
  obtain sol where sol: "extract_solution (grid_of st) problem = Inr sol"
    and st': "st' = st\<lparr>solutions_of := solutions_of st @ [sol]\<rparr>"
    using assms(7) by (auto simp: record_solution_def split: sum.splits)
  have "well_placed problem sol"
    by (rule extract_solution_well_placed[OF assms(1-5) sol])
  then show ?thesis using assms(6) by (simp add: st' recorded_ok_def)
qed

lemma try_branch_ok:
  assumes ih: "\<forall>s s'. tiled H W (grid_of s) (k + 1) \<longrightarrow> recorded_ok problem s \<longrightarrow>
                 rec s = Inr s' \<longrightarrow> grid_of s' = grid_of s \<and> recorded_ok problem s'"
    and t: "tiled H W (grid_of st) k" and H: "0 < H" and k: "1 \<le> k"
    and ok: "recorded_ok problem st"
    and free: "can_place (grid_of st) row col h w" and pos: "0 < h" "0 < w"
    and run: "try_branch rec row col h w k st = Inr st'"
  shows "grid_of st' = grid_of st \<and> recorded_ok problem st'"
proof -
  let ?s = "st\<lparr>grid_of := place_tile (grid_of st) row col h w k\<rparr>"
  obtain s1 where s1: "rec ?s = Inr s1"
    and st': "st' = s1\<lparr>grid_of := remove_tile (grid_of s1) row col h w\<rparr>"
    using run by (auto simp: try_branch_def split: sum.splits)
  have "tiled H W (grid_of ?s) (k + 1)"
    using place_tiled[OF t H free pos k] by simp
  moreover have "recorded_ok problem ?s" using ok by (simp add: recorded_ok_def)
  ultimately have r: "grid_of s1 = grid_of ?s" "recorded_ok problem s1"
    using ih s1 by blast+
  have rect: "rectangular H W (grid_of st)" using t by (simp add: tiled_def)
  have "remove_tile (grid_of s1) row col h w = grid_of st"
    using remove_place[OF rect H free pos, of k] r(1) by simp
  then show ?thesis using r(2) by (simp add: st' recorded_ok_def)
qed

lemma backtrack_solve_ok:
  assumes valid: "post_init problem = Inr problem"
    and dims: "H = nat (container_h problem)" "W = nat (container_w problem)"
  shows "tiled H W (grid_of st) k \<Longrightarrow> 1 \<le> k \<Longrightarrow> recorded_ok problem st \<Longrightarrow>
         backtrack_solve room expired problem limit tiles_left k st = Inr st' \<Longrightarrow>
         grid_of st' = grid_of st \<and> recorded_ok problem st'"
proof (induction room arbitrary: st st' tiles_left k)
  case 0
  then show ?case by simp
next
  case (Suc room)
  note pos = valid_problem_tile[OF valid]
  have H: "0 < H" using dims pos by simp
  have ph: "0 < tile_h problem" and pw: "0 < tile_w problem" using pos by simp_all
  define st0 where "st0 = st\<lparr>checks_of := Suc (checks_of st)\<rparr>"
  have t0: "tiled H W (grid_of st0) k" and ok0: "recorded_ok problem st0"
    and g0: "grid_of st0 = grid_of st"
    using Suc.prems by (simp_all add: st0_def recorded_ok_def)
  let ?rec = "backtrack_solve room expired problem limit (tiles_left - 1) (k + 1)"
  have ih: "\<forall>s s'. tiled H W (grid_of s) (k + 1) \<longrightarrow> recorded_ok problem s \<longrightarrow>
              ?rec s = Inr s' \<longrightarrow> grid_of s' = grid_of s \<and> recorded_ok problem s'"
  proof (intro allI impI)
    fix s s'
    assume a: "tiled H W (grid_of s) (k + 1)" "recorded_ok problem s" "?rec s = Inr s'"
    show "grid_of s' = grid_of s \<and> recorded_ok problem s'"
      using Suc.IH[OF a(1) _ a(2,3)] Suc.prems(2) by simp
  qed
  note rec_ok = record_solution_ok[OF t0 dims pos[THEN conjunct2, THEN conjunct2, THEN conjunct2]
      pos[THEN conjunct2, THEN conjunct2, THEN conjunct1] ok0]
  show ?case
  proof (cases "expired (checks_of st) \<or> int (length (solutions_of st0)) \<ge> limit")
    case True
    then have "st' = st0"
      using Suc.prems(4) by (auto simp: Let_def st0_def split: if_splits)
    then show ?thesis using g0 ok0 by simp
  next
    case False
    show ?thesis
    proof (cases "find_first_empty (grid_of st0)")
      case None
      then have "record_solution problem st0 = Inr st'"
        using Suc.prems(4) False by (simp add: Let_def st0_def)
      then show ?thesis using rec_ok g0 by simp
    next
      case (Some cell)
      obtain row col where cell: "cell = (row, col)" by (cases cell) auto
      show ?thesis
      proof (cases "tiles_left = 0")
        case True
        then have "record_solution problem st0 = Inr st'"
          using Suc.prems(4) False Some by (simp add: Let_def st0_def cell)
        then show ?thesis using rec_ok g0 by simp
      next
        case more: False
        define first where
          "first = (if can_place (grid_of st0) row col (tile_h problem) (tile_w problem)
                    then try_branch ?rec row col (tile_h problem) (tile_w problem) k st0
                    else Inr st0)"
        define second where
          "second = (\<lambda>st1. if allow_rotation problem \<and> tile_w problem \<noteq> tile_h problem \<and>
                              can_place (grid_of st1) row col (tile_w problem) (tile_h problem)
                           then try_branch ?rec row col (tile_w problem) (tile_h problem) k st1
                           else Inr st1)"
        have run: "(case first of Inl e \<Rightarrow> Inl e | Inr st1 \<Rightarrow> second st1) = Inr st'"
          unfolding first_def second_def
          using Suc.prems(4) False Some more
          by (simp add: Let_def st0_def[symmetric] cell split del: if_split)
        then obtain st1 where f: "first = Inr st1" and s: "second st1 = Inr st'"
          by (cases first) auto
        have r1: "grid_of st1 = grid_of st0 \<and> recorded_ok problem st1"
        proof (cases "can_place (grid_of st0) row col (tile_h problem) (tile_w problem)")
          case True
          then have "try_branch ?rec row col (tile_h problem) (tile_w problem) k st0 = Inr st1"
            using f by (simp add: first_def)
          then show ?thesis
            by (rule try_branch_ok[OF ih t0 H Suc.prems(2) ok0 True ph pw])
        next
          case False
          then show ?thesis using f ok0 by (simp add: first_def)
        qed
        then have t1: "tiled H W (grid_of st1) k" and ok1: "recorded_ok problem st1"
          using t0 by simp_all
        have "grid_of st' = grid_of st1 \<and> recorded_ok problem st'"
        proof (cases "allow_rotation problem \<and> tile_w problem \<noteq> tile_h problem \<and>
                      can_place (grid_of st1) row col (tile_w problem) (tile_h problem)")
          case True
          then have "try_branch ?rec row col (tile_w problem) (tile_h problem) k st1 = Inr st'"
            using s by (simp add: second_def)
          then show ?thesis
            by (rule try_branch_ok[OF ih t1 H Suc.prems(2) ok1 True[THEN conjunct2, THEN conjunct2] pw ph])
        next
          case False
          then show ?thesis using s ok1 by (auto simp: second_def)
        qed
        then show ?thesis using r1 g0 by simp
      qed
    qed
  qed
qed

lemma backtrack_solve_all_optimal_well_placed:
  assumes valid: "post_init problem = Inr problem"
    and run: "BacktrackSolver_solve_all_optimal solver problem m = Inr sols"
    and s: "s \<in> set sols"
  shows "well_placed problem (tile_positions s)"
proof -
  define limit where "limit = (case m of None \<Rightarrow> bt_max_solutions solver | Some k \<Rightarrow> k)"
  let ?st = "\<lparr>grid_of = empty_grid problem, solutions_of = [], checks_of = 0\<rparr>"
  obtain st where st: "backtrack_solve (recursion_room solver) (deadline_passed solver) problem
                         limit (max_tiles_or_theoretical problem) 1 ?st = Inr st"
    using run
    by (auto simp: BacktrackSolver_solve_all_optimal_def Let_def limit_def split: sum.splits)
  have "recorded_ok problem st"
    using backtrack_solve_ok[OF valid refl refl _ _ _ st] tiled_empty_grid[of problem]
    by (simp add: recorded_ok_def)
  then have good: "\<And>sol. sol \<in> set (solutions_of st) \<Longrightarrow> well_placed problem sol"
    by (simp add: recorded_ok_def)
  show ?thesis
  proof (cases "solutions_of st")
    case Nil
    then show ?thesis
      using run s st
      by (simp add: BacktrackSolver_solve_all_optimal_def Let_def limit_def)
  next
    case (Cons sol rest)
    let ?optimal = "filter (\<lambda>s. length s = py_max (length sol) (map length rest)) (sol # rest)"
    have "sols = map (\<lambda>positions. mk_solution positions problem ''Backtrack'')
                   (py_slice_to ?optimal limit)"
      using run st Cons
      by (simp add: BacktrackSolver_solve_all_optimal_def Let_def limit_def)
    then obtain positions where in_slice: "positions \<in> set (py_slice_to ?optimal limit)"
      and s_eq: "s = mk_solution positions problem ''Backtrack''"
      using s by auto
    have "positions \<in> set ?optimal"
      using set_py_slice_to[of ?optimal limit] in_slice by (rule subsetD)
    then have "positions \<in> set (sol # rest)"
      unfolding set_filter by (rule CollectE) (rule conjunct1)
    then have "well_placed problem positions" using good Cons by simp
    then show ?thesis by (simp add: s_eq mk_solution_def)
  qed
qed

lemma backtrack_solve_well_placed:
  assumes valid: "post_init problem = Inr problem"
    and run: "BacktrackSolver_solve solver problem = Inr s"
  shows "well_placed problem (tile_positions s)"
proof (cases "BacktrackSolver_solve_all_optimal solver problem (Some 1)")
  case (Inl e)
  then show ?thesis using run by (simp add: BacktrackSolver_solve_def)
next
  case (Inr sols)
  show ?thesis
  proof (cases sols)
    case Nil
    then have "s = mk_solution [] problem ''Backtrack''"
      using run Inr by (simp add: BacktrackSolver_solve_def)
    then show ?thesis by (simp add: mk_solution_def well_placed_def)
  next
    case (Cons s' rest)
    then have "s = s'" using run Inr by (simp add: BacktrackSolver_solve_def)
    then show ?thesis
      using backtrack_solve_all_optimal_well_placed[OF valid Inr, of s] Cons by simp
  qed
qed

subsection \<open>BacktrackSolver: the search returns\<close>

lemma label_region_finite: "finite (label_region H W g v)"
proof -
  have "label_region H W g v \<subseteq> {..<H} \<times> {..<W}" by (auto simp: label_region_def)
  then show ?thesis by (rule finite_subset) simp
qed

lemma label_region_card: "card (label_region H W g v) \<le> H * W"
proof -
  have "label_region H W g v \<subseteq> {..<H} \<times> {..<W}" by (auto simp: label_region_def)
  then have "card (label_region H W g v) \<le> card ({..<H} \<times> {..<W})"
    by (intro card_mono) simp_all
  then show ?thesis by simp
qed

lemma place_tile_fewer_empty:
  assumes rect: "rectangular H W g" and H: "0 < H" and free: "can_place g r c h w"
    and pos: "0 < h" "0 < w" and k: "k \<noteq> 0"
  shows "card (label_region H W (place_tile g r c h w k) 0) < card (label_region H W g 0)"
proof (rule psubset_card_mono[OF label_region_finite])
  let ?g = "place_tile g r c h w k"
  have fits: "r + nat h \<le> H" "c + nat w \<le> W"
    and zero: "\<And>i j. (i, j) \<in> box r c (nat h) (nat w) \<Longrightarrow> g ! i ! j = 0"
    using free pos by (auto simp: can_place_iff[OF rect H])
  have len: "length g = H" "\<And>i. i < H \<Longrightarrow> length (g ! i) = W"
    using rect by (simp_all add: rectangular_def)
  have cell: "?g ! i ! j = (if (i, j) \<in> box r c (nat h) (nat w) then k else g ! i ! j)"
    if "i < H" "j < W" for i j
    unfolding place_tile_def using fits that len by (simp add: fill_cells_cell)
  have corner: "(r, c) \<in> box r c (nat h) (nat w)" using pos by (simp add: box_def)
  then have in_grid: "r < H" "c < W" using fits pos by (simp_all add: box_def)
  have sub: "label_region H W ?g 0 \<subseteq> label_region H W g 0"
  proof
    fix p assume p: "p \<in> label_region H W ?g 0"
    obtain i j where ij: "p = (i, j)" by (cases p)
    have b: "i < H" "j < W" "?g ! i ! j = 0" using p by (simp_all add: label_region_def ij)
    have "g ! i ! j = 0" using cell[OF b(1,2)] b(3) k by (auto split: if_splits)
    then show "p \<in> label_region H W g 0" using b by (simp add: label_region_def ij)
  qed
  have "(r, c) \<in> label_region H W g 0"
    using zero[OF corner] in_grid by (simp add: label_region_def)
  moreover have "(r, c) \<notin> label_region H W ?g 0"
    using cell[OF in_grid] corner k by (simp add: label_region_def)
  ultimately show "label_region H W ?g 0 \<subset> label_region H W g 0"
    using sub by blast
qed

lemma record_solution_returns:
  assumes "grid_of st \<noteq> []"
  shows "\<exists>st'. record_solution problem st = Inr st'"
  using assms by (simp add: record_solution_def extract_solution_rows)

lemma backtrack_solve_returns:
  assumes valid: "post_init problem = Inr problem"
    and dims: "H = nat (container_h problem)" "W = nat (container_w problem)"
  shows "tiled H W (grid_of st) k \<Longrightarrow> 1 \<le> k \<Longrightarrow> recorded_ok problem st \<Longrightarrow>
         card (label_region H W (grid_of st) 0) < room \<Longrightarrow>
         \<exists>st'. backtrack_solve room expired problem limit tiles_left k st = Inr st'"
proof (induction room arbitrary: st tiles_left k)
  case 0
  then show ?case by simp
next
  case (Suc room)
  note pos = valid_problem_tile[OF valid]
  have H: "0 < H" using dims pos by simp
  have ph: "0 < tile_h problem" and pw: "0 < tile_w problem" using pos by simp_all
  define st0 where "st0 = st\<lparr>checks_of := Suc (checks_of st)\<rparr>"
  have t0: "tiled H W (grid_of st0) k" and ok0: "recorded_ok problem st0"
    and g0: "grid_of st0 = grid_of st"
    using Suc.prems by (simp_all add: st0_def recorded_ok_def)
  have ne: "grid_of st0 \<noteq> []" using t0 H by (auto simp: tiled_def rectangular_def)
  let ?rec = "backtrack_solve room expired problem limit (tiles_left - 1) (k + 1)"
  have branch: "\<exists>s'. try_branch ?rec row col h w k s = Inr s' \<and> grid_of s' = grid_of s \<and>
                      recorded_ok problem s'"
    if s: "grid_of s = grid_of st" "recorded_ok problem s"
      and free: "can_place (grid_of s) row col h w" and hw: "0 < h" "0 < w"
    for s row col h w
  proof -
    have ts: "tiled H W (grid_of s) k" using Suc.prems(1) s(1) by simp
    have rect: "rectangular H W (grid_of s)" using ts by (simp add: tiled_def)
    let ?s = "s\<lparr>grid_of := place_tile (grid_of s) row col h w k\<rparr>"
    have tp: "tiled H W (grid_of ?s) (k + 1)"
      using place_tiled[OF ts H free hw Suc.prems(2)] by simp
    have okp: "recorded_ok problem ?s" using s(2) by (simp add: recorded_ok_def)
    have "card (label_region H W (grid_of ?s) 0) < card (label_region H W (grid_of s) 0)"
      using place_tile_fewer_empty[OF rect H free hw, of k] Suc.prems(2) by simp
    then have "card (label_region H W (grid_of ?s) 0) < room"
      using Suc.prems(4) s(1) by simp
    from Suc.IH[OF tp _ okp this] Suc.prems(2)
    obtain s1 where s1: "?rec ?s = Inr s1" by auto
    have r: "grid_of s1 = grid_of ?s \<and> recorded_ok problem s1"
      using backtrack_solve_ok[OF valid dims tp _ okp s1] Suc.prems(2) by simp
    have "remove_tile (grid_of s1) row col h w = grid_of s"
      using remove_place[OF rect H free hw, of k] r by simp
    then show ?thesis using s1 r by (simp add: try_branch_def recorded_ok_def)
  qed
  show ?case
  proof (cases "expired (checks_of st) \<or> int (length (solutions_of st0)) \<ge> limit")
    case True
    then show ?thesis by (auto simp: Let_def st0_def)
  next
    case False
    show ?thesis
    proof (cases "find_first_empty (grid_of st0)")
      case None
      then show ?thesis
        using False record_solution_returns[OF ne, of problem]
        by (simp add: Let_def st0_def[symmetric])
    next
      case (Some cell)
      obtain row col where cell: "cell = (row, col)" by (cases cell) auto
      show ?thesis
      proof (cases "tiles_left = 0")
        case True
        then show ?thesis
          using False Some record_solution_returns[OF ne, of problem]
          by (simp add: Let_def st0_def[symmetric] cell)
      next
        case more: False
        define first where
          "first = (if can_place (grid_of st0) row col (tile_h problem) (tile_w problem)
                    then try_branch ?rec row col (tile_h problem) (tile_w problem) k st0
                    else Inr st0)"
        define second where
          "second = (\<lambda>st1. if allow_rotation problem \<and> tile_w problem \<noteq> tile_h problem \<and>
                              can_place (grid_of st1) row col (tile_w problem) (tile_h problem)
                           then try_branch ?rec row col (tile_w problem) (tile_h problem) k st1
                           else Inr st1)"
        have run: "backtrack_solve (Suc room) expired problem limit tiles_left k st
                     = (case first of Inl e \<Rightarrow> Inl e | Inr st1 \<Rightarrow> second st1)"
          unfolding first_def second_def
          using False Some more
          by (simp add: Let_def st0_def[symmetric] cell split del: if_split)
        obtain st1 where f: "first = Inr st1" and g1: "grid_of st1 = grid_of st"
          and ok1: "recorded_ok problem st1"
        proof (cases "can_place (grid_of st0) row col (tile_h problem) (tile_w problem)")
          case True
          obtain s' where s': "try_branch ?rec row col (tile_h problem) (tile_w problem) k st0 = Inr s'"
            "grid_of s' = grid_of st0" "recorded_ok problem s'"
            using branch[OF g0 ok0 True ph pw] by blast
          have "first = Inr s'" unfolding first_def using True s'(1) by simp
          then show ?thesis using that[of s'] s'(2,3) g0 by simp
        next
          case False
          then show ?thesis using that[of st0] g0 ok0 by (simp add: first_def)
        qed
        have "\<exists>st'. second st1 = Inr st'"
        proof (cases "allow_rotation problem \<and> tile_w problem \<noteq> tile_h problem \<and>
                      can_place (grid_of st1) row col (tile_w problem) (tile_h problem)")
          case True
          obtain s' where "try_branch ?rec row col (tile_w problem) (tile_h problem) k st1 = Inr s'"
            using branch[OF g1 ok1 True[THEN conjunct2, THEN conjunct2] pw ph] by blast
          then show ?thesis unfolding second_def using True by simp
        next
          case False
          then show ?thesis by (auto simp: second_def)
        qed
        then show ?thesis unfolding run f by simp
      qed
    qed
  qed
qed

lemma backtrack_solver_returns:
  assumes valid: "post_init problem = Inr problem"
    and room: "nat (container_h problem) * nat (container_w problem) < recursion_room solver"
  shows "(\<exists>sols. BacktrackSolver_solve_all_optimal solver problem m = Inr sols) \<and>
         (\<exists>s. BacktrackSolver_solve solver problem = Inr s)"
proof -
  let ?H = "nat (container_h problem)" and ?W = "nat (container_w problem)"
  let ?st = "\<lparr>grid_of = empty_grid problem, solutions_of = [], checks_of = 0\<rparr>"
  have card: "card (label_region ?H ?W (grid_of ?st) 0) < recursion_room solver"
    using label_region_card[of ?H ?W "empty_grid problem" 0] room by simp
  have all: "\<exists>sols. BacktrackSolver_solve_all_optimal solver problem m' = Inr sols" for m'
  proof -
    have "tiled ?H ?W (grid_of ?st) 1" "recorded_ok problem ?st"
      using tiled_empty_grid[of problem] by (simp_all add: recorded_ok_def)
    from backtrack_solve_returns[OF valid refl refl this(1) _ this(2) card,
        of "deadline_passed solver"
           "case m' of None \<Rightarrow> bt_max_solutions solver | Some k \<Rightarrow> k"
           "max_tiles_or_theoretical problem"]
    obtain st where
      "backtrack_solve (recursion_room solver) (deadline_passed solver) problem
         (case m' of None \<Rightarrow> bt_max_solutions solver | Some k \<Rightarrow> k)
         (max_tiles_or_theoretical problem) 1 ?st = Inr st"
      by auto
    then show ?thesis
      by (cases "solutions_of st")
         (simp_all add: BacktrackSolver_solve_all_optimal_def Let_def)
  qed
  obtain sols where "BacktrackSolver_solve_all_optimal solver problem (Some 1) = Inr sols"
    using all by blast
  then have "\<exists>s. BacktrackSolver_solve solver problem = Inr s"
    by (cases sols) (simp_all add: BacktrackSolver_solve_def)
  then show ?thesis using all by simp
qed

lemma well_placed_apart_and_inside:
  assumes "well_placed problem ps"
  shows "apart_and_inside problem ps"
proof -
  have no: "no_overlaps ps" and inside: "list_all (within_container problem) ps"
    using assms by (simp_all add: well_placed_def)
  have "\<not> tiles_overlap (ps ! i) (ps ! j)" if "i < length ps" "j < length ps" "i \<noteq> j" for i j
  proof (cases "i < j")
    case True
    then show ?thesis using no_overlaps_nth[OF no] that by simp
  next
    case False
    then have "j < i" using that by simp
    then have "\<not> tiles_overlap (ps ! j) (ps ! i)" using no_overlaps_nth[OF no] that by simp
    then show ?thesis by (simp add: tiles_overlap_sym)
  qed
  moreover have "0 \<le> x \<and> 0 \<le> y \<and> x + w \<le> container_w problem \<and> y + h \<le> container_h problem"
    if "(x, y, w, h, orientation) \<in> set ps" for x y w h orientation
    using inside that by (auto simp: list_all_iff within_container_def)
  ultimately show ?thesis
    unfolding apart_and_inside_def by blast
qed

text \<open>
  C1. For every valid problem (one whose construction succeeds), the placements of every
  solution that the mathematical solver (\<open>solve\<close> and \<open>solve_all_optimal\<close>), the greedy
  solver (either strategy) and the backtracking solver (\<open>solve\<close> and
  \<open>solve_all_optimal\<close>, whatever the deadline checks answer, whatever the recursion
  limit) return are pairwise non-overlapping, by the open-interval test
  \<open>rectangles_overlap\<close>, and every placement \<open>(x, y, w, h, o)\<close> has \<open>0 \<le> x\<close>,
  \<open>0 \<le> y\<close>, \<open>x + w \<le> container_w\<close> and \<open>y + h \<le> container_h\<close>. The
  backtracking solver does return a solution, and not a \<open>RecursionError\<close>, whenever the
  recursion limit leaves room for more nested calls than the grid has cells.
\<close>

theorem strategies_place_tiles_apart_and_inside:
  assumes "post_init problem = Inr problem"
  shows "apart_and_inside problem (tile_positions (MathematicalSolver_solve problem)) \<and>
         (\<forall>s\<in>set (MathematicalSolver_solve_all_optimal problem max_solutions).
            apart_and_inside problem (tile_positions s)) \<and>
         (\<forall>s. GreedySolver_solve strategy problem = Inr s \<longrightarrow>
            apart_and_inside problem (tile_positions s)) \<and>
         (\<forall>s. BacktrackSolver_solve solver problem = Inr s \<longrightarrow>
            apart_and_inside problem (tile_positions s)) \<and>
         (\<forall>sols. BacktrackSolver_solve_all_optimal solver problem max_solutions_arg = Inr sols \<longrightarrow>
            (\<forall>s\<in>set sols. apart_and_inside problem (tile_positions s))) \<and>
         (nat (container_h problem) * nat (container_w problem) < recursion_room solver \<longrightarrow>
            (\<exists>sols. BacktrackSolver_solve_all_optimal solver problem max_solutions_arg = Inr sols) \<and>
            (\<exists>s. BacktrackSolver_solve solver problem = Inr s))"
proof (intro conjI ballI allI impI)
  show "apart_and_inside problem (tile_positions (MathematicalSolver_solve problem))"
    by (rule well_placed_apart_and_inside[OF mathematical_solve_well_placed[OF assms]])
next
  fix s assume "s \<in> set (MathematicalSolver_solve_all_optimal problem max_solutions)"
  then show "apart_and_inside problem (tile_positions s)"
    by (rule well_placed_apart_and_inside[OF mathematical_solve_all_optimal_well_placed[OF assms]])
next
  fix s assume "GreedySolver_solve strategy problem = Inr s"
  then show "apart_and_inside problem (tile_positions s)"
    by (rule well_placed_apart_and_inside[OF greedy_solve_well_placed[OF assms]])
next
  fix s assume "BacktrackSolver_solve solver problem = Inr s"
  then show "apart_and_inside problem (tile_positions s)"
    by (rule well_placed_apart_and_inside[OF backtrack_solve_well_placed[OF assms]])
next
  fix sols s
  assume "BacktrackSolver_solve_all_optimal solver problem max_solutions_arg = Inr sols"
    and "s \<in> set sols"
  then show "apart_and_inside problem (tile_positions s)"
    by (rule well_placed_apart_and_inside[OF backtrack_solve_all_optimal_well_placed[OF assms]])
next
  assume room: "nat (container_h problem) * nat (container_w problem) < recursion_room solver"
  show "\<exists>sols. BacktrackSolver_solve_all_optimal solver problem max_solutions_arg = Inr sols"
    using backtrack_solver_returns[OF assms room] by (rule conjunct1)
  show "\<exists>s. BacktrackSolver_solve solver problem = Inr s"
    using backtrack_solver_returns[OF assms room, of None] by (rule conjunct2)
qed

theorem strategies_place_tiles_witness:
  "post_init small_problem = Inr small_problem \<and>
   nat (container_h small_problem) * nat (container_w small_problem)
     < recursion_room \<lparr>bt_max_solutions = 50, deadline_passed = (\<lambda>k. False), recursion_room = 1000\<rparr> \<and>
   tile_positions (MathematicalSolver_solve small_problem)
     = [(0, 0, 2, 1, ''original''), (0, 1, 2, 1, ''original'')] \<and>
   apart_and_inside small_problem [(0, 0, 2, 1, ''original''), (0, 1, 2, 1, ''original'')] \<and>
   GreedySolver_solve ''center_out'' small_problem
     = Inr \<lparr>tile_positions = [(0, 1, 2, 1, ''original''), (0, 0, 2, 1, ''original'')],
            sol_container_w = 3, sol_container_h = 2, solver_name = ''Greedy_center_out''\<rparr> \<and>
   apart_and_inside small_problem [(0, 1, 2, 1, ''original''), (0, 0, 2, 1, ''original'')] \<and>
   BacktrackSolver_solve
       \<lparr>bt_max_solutions = 50, deadline_passed = (\<lambda>k. False), recursion_room = 1000\<rparr>
       small_problem
     = Inr \<lparr>tile_positions = [(0, 0, 2, 1, ''original''), (2, 0, 1, 2, ''rotated''),
                              (0, 1, 2, 1, ''original'')],
            sol_container_w = 3, sol_container_h = 2, solver_name = ''Backtrack''\<rparr> \<and>
   apart_and_inside small_problem
     [(0, 0, 2, 1, ''original''), (2, 0, 1, 2, ''rotated''), (0, 1, 2, 1, ''original'')]"
proof -
  let ?solver = "\<lparr>bt_max_solutions = 50, deadline_passed = (\<lambda>k. False), recursion_room = 1000\<rparr>"
  have v: "post_init small_problem = Inr small_problem"
    by (simp add: post_init_def small_problem_def)
  have m: "tile_positions (MathematicalSolver_solve small_problem)
             = [(0, 0, 2, 1, ''original''), (0, 1, 2, 1, ''original'')]"
    unfolding small_problem_def by code_simp
  have g: "GreedySolver_solve ''center_out'' small_problem
     = Inr \<lparr>tile_positions = [(0, 1, 2, 1, ''original''), (0, 0, 2, 1, ''original'')],
            sol_container_w = 3, sol_container_h = 2, solver_name = ''Greedy_center_out''\<rparr>"
    unfolding small_problem_def by code_simp
  have b: "BacktrackSolver_solve ?solver small_problem
     = Inr \<lparr>tile_positions = [(0, 0, 2, 1, ''original''), (2, 0, 1, 2, ''rotated''),
                              (0, 1, 2, 1, ''original'')],
            sol_container_w = 3, sol_container_h = 2, solver_name = ''Backtrack''\<rparr>"
    unfolding small_problem_def by code_simp
  note t = strategies_place_tiles_apart_and_inside[OF v, of 10 "''center_out''" ?solver None]
  have "apart_and_inside small_problem [(0, 0, 2, 1, ''original''), (0, 1, 2, 1, ''original'')]"
    using t[THEN conjunct1] unfolding m .
  moreover have "apart_and_inside small_problem [(0, 1, 2, 1, ''original''), (0, 0, 2, 1, ''original'')]"
    using t[THEN conjunct2, THEN conjunct2, THEN conjunct1] g by simp
  moreover have "apart_and_inside small_problem
     [(0, 0, 2, 1, ''original''), (2, 0, 1, 2, ''rotated''), (0, 1, 2, 1, ''original'')]"
    using t[THEN conjunct2, THEN conjunct2, THEN conjunct2, THEN conjunct1] b by simp
  moreover have "nat (container_h small_problem) * nat (container_w small_problem)
                   < recursion_room ?solver"
    by (simp add: small_problem_def)
  ultimately show ?thesis
    using v m g b by simp
qed

end
